theory Spec2Isabelle
  imports Complex_Main "HOL-Library.Char_ord" "HOL-Library.List_Lexorder" "HOL-Library.Multiset"
begin

section \<open>Strings of the JavaScript runtime\<close>

text \<open>
  A JavaScript string is modelled as a \<^typ>\<open>string\<close>: a list of code units below 256 (the
  Latin-1 range of UTF-16). Strings are compared by code unit, as \<^verbatim>\<open><\<close> does in the
  source. \<open>String.prototype.trim\<close> and the regular expression class \<^verbatim>\<open>\s\<close> treat
  the code units 9 to 13, 32 and 160 of this range as white space;
  \<open>toLowerCase\<close> maps \<open>A\<close> to \<open>Z\<close> and the upper-case letters 192 to 222 (but 215, the
  multiplication sign) to the code unit 32 above.
\<close>

definition is_space :: "char \<Rightarrow> bool" where
  "is_space c = (let n = (of_char c :: nat) in (9 \<le> n \<and> n \<le> 13) \<or> n = 32 \<or> n = 160)"

definition trim :: "string \<Rightarrow> string" where
  "trim s = rev (dropWhile is_space (rev (dropWhile is_space s)))"

definition lower_char :: "char \<Rightarrow> char" where
  "lower_char c =
     (let n = (of_char c :: nat)
      in if (65 \<le> n \<and> n \<le> 90) \<or> (192 \<le> n \<and> n \<le> 222 \<and> n \<noteq> 215)
         then char_of (n + 32) else c)"

definition toLowerCase :: "string \<Rightarrow> string" where
  "toLowerCase s = map lower_char s"

fun startsWith :: "string \<Rightarrow> string \<Rightarrow> bool" where
  "startsWith s [] = True"
| "startsWith [] (p # ps) = False"
| "startsWith (c # cs) (p # ps) = (c = p \<and> startsWith cs ps)"

definition endsWith :: "string \<Rightarrow> string \<Rightarrow> bool" where
  "endsWith s p = startsWith (rev s) (rev p)"

text \<open>\<open>s.includes(sub)\<close> (the name is a keyword of the prover): \<open>sub\<close> occurs in \<open>s\<close> as a contiguous run.\<close>

fun str_includes :: "string \<Rightarrow> string \<Rightarrow> bool" where
  "str_includes [] sub = (sub = [])"
| "str_includes (c # cs) sub = (startsWith (c # cs) sub \<or> str_includes cs sub)"

text \<open>\<open>s.split(sep)\<close> for a separator of one code unit; the empty string splits into one
  empty piece.\<close>

fun split_on :: "char \<Rightarrow> string \<Rightarrow> string list" where
  "split_on sep [] = [[]]"
| "split_on sep (c # cs) =
     (if c = sep then [] # split_on sep cs
      else (case split_on sep cs of
              [] \<Rightarrow> [[c]]
            | w # ws \<Rightarrow> (c # w) # ws))"

text \<open>\<open>pieces.join(sep)\<close>.\<close>

fun join :: "string \<Rightarrow> string list \<Rightarrow> string" where
  "join sep [] = []"
| "join sep [x] = x"
| "join sep (x # y # ys) = x @ sep @ join sep (y # ys)"

text \<open>\<open>xs.slice(-n)\<close> for a count \<open>n\<close> that is a natural number: the last \<open>n\<close> elements,
  and the whole array when \<open>n\<close> is \<open>0\<close> (\<open>-0\<close> is the index \<open>0\<close>).\<close>

definition slice_last :: "nat \<Rightarrow> 'a list \<Rightarrow> 'a list" where
  "slice_last n xs = (if n = 0 then xs else drop (length xs - n) xs)"

text \<open>\<open>s.slice(1, -1)\<close>.\<close>

definition slice_1_m1 :: "string \<Rightarrow> string" where
  "slice_1_m1 s = butlast (drop 1 s)"

abbreviation (input) quote :: char where "quote \<equiv> CHR 0x22"
abbreviation (input) apostrophe :: char where "apostrophe \<equiv> CHR 0x27"
abbreviation (input) backslash :: char where "backslash \<equiv> CHR 0x5C"
abbreviation (input) newline :: char where "newline \<equiv> CHR 0x0A"
abbreviation (input) carriage_return :: char where "carriage_return \<equiv> CHR 0x0D"

section \<open>JSON values and \<open>JSON.stringify\<close>\<close>

text \<open>
  The values that \<open>JSON.parse\<close> builds. An object is the list of its own properties in
  the order \<open>Object.entries\<close> and \<open>JSON.stringify\<close> enumerate them, with no key twice.
  A number is kept as what the program observes of it: the text that \<open>JSON.stringify\<close>
  writes for it (\<open>null\<close> for a number that is not finite, which \<open>JSON.parse\<close> builds
  from a literal such as \<open>1e999\<close>), the text that \<open>String\<close> writes for it, and whether
  it is truthy. The program applies no other operation to a number.
\<close>

record number =
  json_text :: string
  string_text :: string
  nonzero :: bool

datatype json =
    JNull
  | JBool bool
  | JNum number
  | JStr string
  | JArr "json list"
  | JObj "(string \<times> json) list"

definition digit_char :: "nat \<Rightarrow> char" where
  "digit_char d = char_of (48 + d)"

fun digits_of :: "nat \<Rightarrow> string" where
  "digits_of n = (if n < 10 then [digit_char n] else digits_of (n div 10) @ [digit_char (n mod 10)])"

declare digits_of.simps [simp del]

text \<open>The number that is the \<open>length\<close> of an array or a string of the runtime: a natural
  number below \<open>2\<^sup>5\<^sup>3\<close>, which both \<open>JSON.stringify\<close> and \<open>String\<close> write in decimal
  digits.\<close>

definition number_of_length :: "nat \<Rightarrow> number" where
  "number_of_length n = \<lparr>json_text = digits_of n, string_text = digits_of n, nonzero = (n \<noteq> 0)\<rparr>"

definition hex_char :: "nat \<Rightarrow> char" where
  "hex_char d = (if d < 10 then char_of (48 + d) else char_of (87 + d))"

text \<open>The escapes of \<open>JSON.stringify\<close> inside a string literal (\<open>QuoteJSONString\<close>).\<close>

definition escape_char :: "char \<Rightarrow> string" where
  "escape_char c =
     (let n = (of_char c :: nat)
      in if c = quote then [backslash, quote]
         else if c = backslash then [backslash, backslash]
         else if n = 8 then [backslash, CHR ''b'']
         else if n = 12 then [backslash, CHR ''f'']
         else if n = 10 then [backslash, CHR ''n'']
         else if n = 13 then [backslash, CHR ''r'']
         else if n = 9 then [backslash, CHR ''t'']
         else if n < 32 then [backslash, CHR ''u'', CHR ''0'', CHR ''0'', hex_char (n div 16), hex_char (n mod 16)]
         else [c])"

definition quote_string :: "string \<Rightarrow> string" where
  "quote_string s = quote # concat (map escape_char s) @ [quote]"

fun stringify :: "json \<Rightarrow> string" where
  "stringify JNull = ''null''"
| "stringify (JBool b) = (if b then ''true'' else ''false'')"
| "stringify (JNum n) = json_text n"
| "stringify (JStr s) = quote_string s"
| "stringify (JArr vs) = ''['' @ join '','' (map stringify vs) @ '']''"
| "stringify (JObj kvs) =
     ''{'' @ join '','' (map (\<lambda>kv. quote_string (fst kv) @ '':'' @ stringify (snd kv)) kvs) @ ''}''"

text \<open>\<open>stringifySafe(x)\<close> for a JSON value \<open>x\<close>: a string passes unchanged, everything
  else is rendered by \<open>JSON.stringify\<close>, which does not throw on these values.\<close>

definition stringifySafe :: "json \<Rightarrow> string" where
  "stringifySafe x = (case x of JStr s \<Rightarrow> s | _ \<Rightarrow> stringify x)"

definition truthy :: "json \<Rightarrow> bool" where
  "truthy x =
     (case x of JNull \<Rightarrow> False | JBool b \<Rightarrow> b | JNum n \<Rightarrow> nonzero n | JStr s \<Rightarrow> s \<noteq> []
      | JArr vs \<Rightarrow> True | JObj kvs \<Rightarrow> True)"

section \<open>Events\<close>

text \<open>
  The object that \<open>storeEvent\<close> builds: \<open>{id, hook, receivedAt, meta, payload}\<close>. The
  fields \<open>id\<close> and \<open>hook\<close> are named \<open>e_id\<close> and \<open>e_hook\<close> here. \<open>event_json\<close> is the
  same object as the JSON value that the matchers traverse and \<open>JSON.stringify\<close> renders.
\<close>

record event =
  e_id :: string
  e_hook :: string
  receivedAt :: string
  meta :: json
  payload :: json

definition event_json :: "event \<Rightarrow> json" where
  "event_json e =
     JObj [(''id'', JStr (e_id e)), (''hook'', JStr (e_hook e)),
           (''receivedAt'', JStr (receivedAt e)), (''meta'', meta e), (''payload'', payload e)]"

datatype error = TypeError | NotFound

section \<open>Utilities\<close>

definition normalizeQ :: "string \<Rightarrow> string" where
  "normalizeQ q = (let s = trim q in if length s \<noteq> 0 then s else [])"

text \<open>\<open>csvEscape\<close> on a string: the test is the regular expression \<^verbatim>\<open>/[",\n\r]/\<close>.\<close>

definition csv_special :: "char \<Rightarrow> bool" where
  "csv_special c = (c = quote \<or> c = CHR '','' \<or> c = newline \<or> c = carriage_return)"

definition csvEscape :: "string \<Rightarrow> string" where
  "csvEscape s =
     (if list_ex csv_special s
      then [quote] @ concat (map (\<lambda>c. if c = quote then [quote, quote] else [c]) s) @ [quote]
      else s)"

section \<open>The query language\<close>

subsection \<open>\<open>tokenizeQuery\<close>\<close>

text \<open>
  The inner loop of \<open>tokenizeQuery\<close>, from the first character of a token. The variables
  \<open>inQuotes\<close> and \<open>quoteChar\<close> change together, so they are one \<open>char option\<close>. The
  result is the slice \<open>q.slice(start, i)\<close> and the rest of the input from \<open>i\<close>.
\<close>

fun scan_token :: "char option \<Rightarrow> string \<Rightarrow> string \<Rightarrow> string \<times> string" where
  "scan_token quoteChar acc [] = (rev acc, [])"
| "scan_token quoteChar acc (ch # cs) =
     (case quoteChar of
        None \<Rightarrow>
          if ch = quote \<or> ch = apostrophe then scan_token (Some ch) (ch # acc) cs
          else if is_space ch then (rev acc, ch # cs)
          else scan_token None (ch # acc) cs
      | Some qc \<Rightarrow>
          if ch = qc then scan_token None (ch # acc) cs
          else scan_token (Some qc) (ch # acc) cs)"

lemma scan_token_rest_le: "length (snd (scan_token qc acc s)) \<le> length s"
  by (induction qc acc s rule: scan_token.induct) (auto split: option.splits intro: le_SucI)

lemma scan_token_rest_less:
  "\<not> is_space c \<Longrightarrow> length (snd (scan_token None acc (c # cs))) < Suc (length cs)"
  using scan_token_rest_le [of "Some c" "c # acc" cs] scan_token_rest_le [of None "c # acc" cs]
  by (auto simp: less_Suc_eq_le)

function tokenizeQuery :: "string \<Rightarrow> string list" where
  "tokenizeQuery q =
     (case dropWhile is_space q of
        [] \<Rightarrow> []
      | c # cs \<Rightarrow>
          (let raw = trim (fst (scan_token None [] (c # cs)))
           in (if raw \<noteq> [] then [raw] else []) @ tokenizeQuery (snd (scan_token None [] (c # cs)))))"
  by pat_completeness auto

lemma dropWhile_first: "dropWhile P q = c # cs \<Longrightarrow> \<not> P c \<and> length cs < length q"
  by (metis dropWhile_eq_Cons_conv length_dropWhile_le length_Cons not_less_eq_eq not_less)

termination tokenizeQuery
proof (relation "measure length")
  show "wf (measure length)" by simp
next
  fix q :: string and c cs
  assume d: "dropWhile is_space q = c # cs"
  from dropWhile_first [OF d] have "\<not> is_space c" and "length cs < length q" by simp_all
  with scan_token_rest_less [of c "[]" cs]
  show "(snd (scan_token None [] (c # cs)), q) \<in> measure length" by simp
qed

declare tokenizeQuery.simps [simp del]

subsection \<open>\<open>parseTokens\<close>\<close>

record tokens =
  fieldTokens :: "(string \<times> string) list"
  textTokens :: "string list"

definition strip_quotes :: "string \<Rightarrow> string" where
  "strip_quotes v =
     (if (startsWith v [quote] \<and> endsWith v [quote]) \<or> (startsWith v [apostrophe] \<and> endsWith v [apostrophe])
      then slice_1_m1 v else v)"

text \<open>One turn of the loop over the tokens; \<open>idx > 0\<close> is a colon that is not the first
  character.\<close>

definition parse_step :: "tokens \<Rightarrow> string \<Rightarrow> tokens" where
  "parse_step acc t =
     (let upto = takeWhile (\<lambda>c. c \<noteq> CHR '':'') t;
          key = trim upto;
          value = strip_quotes (trim (drop (Suc (length upto)) t));
          v = strip_quotes (trim t)
      in if CHR '':'' \<in> set t \<and> upto \<noteq> [] \<and> key \<noteq> [] \<and> value \<noteq> []
         then acc\<lparr>fieldTokens := fieldTokens acc @ [(toLowerCase key, toLowerCase value)]\<rparr>
         else if v \<noteq> [] then acc\<lparr>textTokens := textTokens acc @ [toLowerCase v]\<rparr>
         else acc)"

definition parseTokens :: "string \<Rightarrow> tokens" where
  "parseTokens q = foldl parse_step \<lparr>fieldTokens = [], textTokens = []\<rparr> (tokenizeQuery q)"

subsection \<open>\<open>deepAny\<close> and the token matchers\<close>

fun jsize :: "json \<Rightarrow> nat" where
  "jsize (JArr vs) = Suc (sum_list (map jsize vs))"
| "jsize (JObj kvs) = Suc (sum_list (map (\<lambda>kv. jsize (snd kv)) kvs))"
| "jsize v = 1"

text \<open>What one turn of the loop pushes, in the order of the pushes: the elements of an
  array under the array's own key, the properties of an object under their keys.\<close>

definition pushed :: "json \<Rightarrow> string option \<Rightarrow> (json \<times> string option) list" where
  "pushed v key =
     (case v of
        JArr vs \<Rightarrow> map (\<lambda>x. (x, key)) vs
      | JObj kvs \<Rightarrow> map (\<lambda>kv. (snd kv, Some (fst kv))) kvs
      | _ \<Rightarrow> [])"

lemma pushed_size: "sum_list (map (\<lambda>p. jsize (fst p)) (pushed v key)) < jsize v"
  by (cases v) (simp_all add: pushed_def comp_def)

text \<open>The loop of \<open>deepAny\<close>. The stack is a list with its top first: \<open>stack.pop()\<close> takes
  the head, and the entries pushed in one turn come on top in reverse.\<close>

function deepAny_loop :: "(string option \<Rightarrow> json \<Rightarrow> bool) \<Rightarrow> (json \<times> string option) list \<Rightarrow> bool" where
  "deepAny_loop predicate [] = False"
| "deepAny_loop predicate ((v, key) # stack) =
     (if predicate key v then True
      else deepAny_loop predicate (rev (pushed v key) @ stack))"
  by pat_completeness auto
termination
proof (relation "measure (\<lambda>(predicate, stack). sum_list (map (\<lambda>p. jsize (fst p)) stack))")
  show "wf (measure (\<lambda>(predicate, stack). sum_list (map (\<lambda>p. jsize (fst p)) stack)))" by simp
next
  fix predicate :: "string option \<Rightarrow> json \<Rightarrow> bool" and v key and stack :: "(json \<times> string option) list"
  have "sum_list (map (\<lambda>p. jsize (fst p)) (rev (pushed v key))) < jsize v"
    using pushed_size [of v key] by (simp add: rev_map [symmetric])
  then show "((predicate, rev (pushed v key) @ stack), (predicate, (v, key) # stack))
      \<in> measure (\<lambda>(predicate, stack). sum_list (map (\<lambda>p. jsize (fst p)) stack))"
    by simp
qed

definition deepAny :: "json \<Rightarrow> (string option \<Rightarrow> json \<Rightarrow> bool) \<Rightarrow> bool" where
  "deepAny obj predicate = deepAny_loop predicate [(obj, None)]"

text \<open>The predicate of \<open>eventMatchesFieldToken\<close>; \<open>!field\<close> holds of \<open>null\<close> and of the
  empty key.\<close>

definition field_predicate :: "string \<Rightarrow> string \<Rightarrow> string option \<Rightarrow> json \<Rightarrow> bool" where
  "field_predicate keyLower valueLower field v =
     (case field of
        None \<Rightarrow> False
      | Some f \<Rightarrow>
          if f = [] then False
          else if toLowerCase f \<noteq> keyLower then False
          else str_includes (toLowerCase (stringifySafe v)) valueLower)"

definition eventMatchesFieldToken :: "event \<Rightarrow> string \<Rightarrow> string \<Rightarrow> bool" where
  "eventMatchesFieldToken evt keyLower valueLower =
     deepAny (event_json evt) (field_predicate keyLower valueLower)"

definition eventMatchesTextToken :: "event \<Rightarrow> string \<Rightarrow> bool" where
  "eventMatchesTextToken evt tokenLower =
     str_includes (toLowerCase (stringifySafe (event_json evt))) tokenLower"

subsection \<open>\<open>getByPath\<close> and the selected-field filter\<close>

definition is_digit :: "char \<Rightarrow> bool" where
  "is_digit c = (let n = (of_char c :: nat) in 48 \<le> n \<and> n \<le> 57)"

text \<open>A property name that is an array index: decimal digits with no leading zero.\<close>

definition parse_index :: "string \<Rightarrow> nat option" where
  "parse_index p =
     (if p \<noteq> [] \<and> list_all is_digit p \<and> (p = ''0'' \<or> hd p \<noteq> CHR ''0'')
      then Some (foldl (\<lambda>a c. 10 * a + (of_char c - 48)) 0 p) else None)"

text \<open>
  The own properties of a JSON value that is neither \<open>null\<close> nor \<open>undefined\<close>: the
  properties of an object, the elements and the \<open>length\<close> of an array, the code units and
  the \<open>length\<close> of a string. A number and a boolean have none.
\<close>

definition own_property :: "json \<Rightarrow> string \<Rightarrow> json option" where
  "own_property cur p =
     (case cur of
        JObj kvs \<Rightarrow> map_of kvs p
      | JArr vs \<Rightarrow>
          if p = ''length'' then Some (JNum (number_of_length (length vs)))
          else (case parse_index p of
                  Some i \<Rightarrow> if i < length vs then Some (vs ! i) else None
                | None \<Rightarrow> None)
      | JStr s \<Rightarrow>
          if p = ''length'' then Some (JNum (number_of_length (length s)))
          else (case parse_index p of
                  Some i \<Rightarrow> if i < length s then Some (JStr [s ! i]) else None
                | None \<Rightarrow> None)
      | _ \<Rightarrow> None)"

text \<open>
  \<open>cur[p]\<close> answers with the own property \<open>p\<close> of \<open>cur\<close> when there is one, and looks
  \<open>p\<close> up in the prototypes of \<open>cur\<close> otherwise (\<open>constructor\<close>, \<open>toString\<close>,
  \<open>__proto__\<close>, the methods of arrays and strings, and so on). The prototypes belong to
  the runtime and are a parameter of the model, \<open>inh\<close>. With \<open>parts\<close> the segments of the path
  that are left, \<open>p\<close> the first of them, and \<open>p\<close> no own property of \<open>cur\<close>,
  \<open>inh cur parts\<close> is \<open>None\<close> when \<open>cur\<close> inherits no member \<open>p\<close>, so that
  \<open>cur[p]\<close> is \<open>undefined\<close>. Otherwise the rest of the path runs through values of the
  runtime (functions, prototype objects and their members), and \<open>inh cur parts\<close>
  is what \<open>stringifySafe(got).toLowerCase()\<close> makes of the value \<open>got\<close> that
  \<open>getByPath\<close> returns: the string before it is put in lower case, or the exception
  (a \<open>TypeError\<close> when \<open>got\<close> is a function or \<open>undefined\<close>, for which
  \<open>JSON.stringify\<close> returns \<open>undefined\<close>).
\<close>

type_synonym prototypes = "json \<Rightarrow> string list \<Rightarrow> (error + string) option"

text \<open>What \<open>getByPath\<close> returns: a value of the event, \<open>undefined\<close>, or a value of
  the runtime, of which the model keeps what the caller makes of it.\<close>

datatype resolved = Resolved json | Unresolved | Inherited "error + string"

text \<open>The loop of \<open>getByPath\<close>: \<open>cur == null\<close> holds of \<open>null\<close> and of \<open>undefined\<close>.\<close>

fun walk :: "prototypes \<Rightarrow> json option \<Rightarrow> string list \<Rightarrow> resolved" where
  "walk inh cur [] = (case cur of None \<Rightarrow> Unresolved | Some v \<Rightarrow> Resolved v)"
| "walk inh cur (p # parts) =
     (case cur of
        None \<Rightarrow> Unresolved
      | Some JNull \<Rightarrow> Unresolved
      | Some v \<Rightarrow>
          (case own_property v p of
             Some w \<Rightarrow> walk inh (Some w) parts
           | None \<Rightarrow>
               (case inh v (p # parts) of
                  None \<Rightarrow> walk inh None parts
                | Some outcome \<Rightarrow> Inherited outcome)))"

definition getByPath :: "prototypes \<Rightarrow> json \<Rightarrow> string \<Rightarrow> resolved" where
  "getByPath inh obj pathStr =
     (if \<not> truthy obj \<or> pathStr = [] then Unresolved
      else walk inh (Some obj) (filter (\<lambda>p. p \<noteq> []) (split_on CHR ''.'' pathStr)))"

text \<open>
  \<open>eventMatchesSelectedField\<close>. On \<open>undefined\<close>, \<open>stringifySafe\<close> returns
  \<open>undefined\<close> (\<open>JSON.stringify(undefined)\<close> is \<open>undefined\<close> and does not throw), and the
  call of \<open>toLowerCase\<close> on it throws a \<open>TypeError\<close>.
\<close>

definition eventMatchesSelectedField :: "prototypes \<Rightarrow> event \<Rightarrow> string \<Rightarrow> string \<Rightarrow> error + bool" where
  "eventMatchesSelectedField inh evt fieldPath value =
     (let v = toLowerCase (trim value)
      in if v = [] then Inr True
         else (let f = trim fieldPath
               in if f = [] \<or> f = ''any'' \<or> f = ''fulltext''
                  then Inr (str_includes (toLowerCase (stringifySafe (event_json evt))) v)
                  else (case getByPath inh (event_json evt) f of
                          Unresolved \<Rightarrow> Inl TypeError
                        | Resolved got \<Rightarrow> Inr (str_includes (toLowerCase (stringifySafe got)) v)
                        | Inherited (Inl err) \<Rightarrow> Inl err
                        | Inherited (Inr text) \<Rightarrow> Inr (str_includes (toLowerCase text) v))))"

subsection \<open>\<open>eventMatches\<close>\<close>

text \<open>The part of \<open>eventMatches\<close> after the selected-field filter: the two loops over the
  tokens return \<open>false\<close> at the first token that does not match.\<close>

definition advancedMatches :: "event \<Rightarrow> string \<Rightarrow> bool" where
  "advancedMatches evt q =
     (let qq = normalizeQ q
      in if qq = [] then True
         else (let toks = parseTokens qq
               in list_all (\<lambda>ft. eventMatchesFieldToken evt (fst ft) (snd ft)) (fieldTokens toks)
                  \<and> list_all (\<lambda>tt. eventMatchesTextToken evt tt) (textTokens toks)))"

definition eventMatches :: "prototypes \<Rightarrow> event \<Rightarrow> string \<Rightarrow> string \<Rightarrow> string \<Rightarrow> error + bool" where
  "eventMatches inh evt q field value =
     (if value \<noteq> [] \<and> trim value \<noteq> []
      then (case eventMatchesSelectedField inh evt field value of
              Inl err \<Rightarrow> Inl err
            | Inr ok \<Rightarrow> if \<not> ok then Inr False else Inr (advancedMatches evt q))
      else Inr (advancedMatches evt q))"

subsection \<open>\<open>parseLimit\<close>\<close>

text \<open>The query parameter \<open>limit\<close>, by what \<open>Number(v)\<close> makes of it: absent (\<open>null\<close>,
  \<open>undefined\<close> or the empty string), not a finite number, or a finite number.\<close>

datatype limit_param = Absent | NotFinite | Finite rat

definition parseLimit :: "limit_param \<Rightarrow> nat" where
  "parseLimit v =
     (case v of
        Absent \<Rightarrow> 0
      | NotFinite \<Rightarrow> 50
      | Finite n \<Rightarrow> if n < 0 then 50 else nat \<lfloor>n\<rfloor>)"

section \<open>The store\<close>

subsection \<open>Configuration and state\<close>

text \<open>
  The constants that the process reads from its environment, as natural numbers and a list;
  \<open>JSON.parse\<close> on a line of a log (\<open>None\<close> where it throws); \<open>a.localeCompare(b)\<close>;
  and the prototypes of the runtime, as \<open>getByPath\<close> meets them.
  The lines of a log hold events, as \<open>storeEvent\<close> writes them: a line that parses to
  another value is outside this model of the store.
\<close>

record env =
  MAX_RECENT_PER_HOOK :: nat
  MAX_EXPORT :: nat
  HOOK_ALLOWLIST :: "string list"
  JSON_parse :: "string \<Rightarrow> event option"
  localeCompare :: "string \<Rightarrow> string \<Rightarrow> int"
  inherited :: prototypes

text \<open>
  The arrays of events live in a heap, \<open>arrays\<close>; a reference to an array is its index.
  \<open>recentByHook\<close> is the \<open>Map\<close> of the source, from a hook to the reference of its cache,
  in insertion order. \<open>files\<close> holds the content of \<open>DATA_DIR/<hook>.ndjson\<close> by hook.
\<close>

record store =
  arrays :: "event list list"
  recentByHook :: "(string \<times> nat) list"
  files :: "(string \<times> string) list"

definition new_array :: "event list \<Rightarrow> store \<Rightarrow> nat \<times> store" where
  "new_array xs st = (length (arrays st), st\<lparr>arrays := arrays st @ [xs]\<rparr>)"

definition get_array :: "store \<Rightarrow> nat \<Rightarrow> event list" where
  "get_array st a = arrays st ! a"

definition set_array :: "nat \<Rightarrow> event list \<Rightarrow> store \<Rightarrow> store" where
  "set_array a xs st = st\<lparr>arrays := (arrays st)[a := xs]\<rparr>"

definition hook_char :: "char \<Rightarrow> bool" where
  "hook_char c =
     (let n = (of_char c :: nat)
      in (97 \<le> n \<and> n \<le> 122) \<or> (65 \<le> n \<and> n \<le> 90) \<or> (48 \<le> n \<and> n \<le> 57) \<or> c = CHR ''_'' \<or> c = CHR ''-'')"

definition isHookAllowed :: "env \<Rightarrow> string \<Rightarrow> bool" where
  "isHookAllowed env hook =
     (if hook = [] then False
      else if \<not> (list_all hook_char hook \<and> 1 \<le> length hook \<and> length hook \<le> 40) then False
      else if length (HOOK_ALLOWLIST env) = 0 then True
      else hook \<in> set (HOOK_ALLOWLIST env))"

subsection \<open>\<open>loadHook\<close>, \<open>ensureHookLoaded\<close>, \<open>storeEvent\<close>\<close>

text \<open>
  \<open>loadHook\<close>, for any type of parsed records: \<open>parse\<close> is \<open>JSON.parse\<close> (\<open>None\<close> where it
  throws, which the source turns into \<open>null\<close>) and \<open>is_truthy\<close> is \<open>Boolean\<close> on a parsed
  value. The last \<open>filter(Boolean)\<close> drops the \<open>null\<close> of a line that did not parse and
  every parsed value that is falsy.
\<close>

definition loadHook ::
  "nat \<Rightarrow> (string \<Rightarrow> 'r option) \<Rightarrow> ('r \<Rightarrow> bool) \<Rightarrow> (string \<times> string) list \<Rightarrow> string \<Rightarrow> 'r list" where
  "loadHook max_recent parse is_truthy fs hook =
     (case map_of fs hook of
        None \<Rightarrow> []
      | Some content \<Rightarrow>
          (let raw = trim content
           in if raw = [] then []
              else (let lines = filter (\<lambda>l. l \<noteq> []) (split_on newline raw);
                        tail = slice_last max_recent lines
                    in List.map_filter
                         (\<lambda>l. case parse l of
                                 None \<Rightarrow> None
                               | Some r \<Rightarrow> if is_truthy r then Some r else None)
                         tail)))"

text \<open>In the store a parsed record is an event, an object, which is truthy.\<close>

definition ensureHookLoaded :: "env \<Rightarrow> string \<Rightarrow> store \<Rightarrow> nat \<times> store" where
  "ensureHookLoaded env hook st =
     (case map_of (recentByHook st) hook of
        Some a \<Rightarrow> (a, st)
      | None \<Rightarrow>
          (let loaded = loadHook (MAX_RECENT_PER_HOOK env) (JSON_parse env) (\<lambda>e. True) (files st) hook;
               (a, st1) = new_array loaded st
           in (a, st1\<lparr>recentByHook := recentByHook st1 @ [(hook, a)]\<rparr>)))"

text \<open>\<open>fs.appendFileSync\<close>: the file is created when it does not exist.\<close>

definition appendFile :: "string \<Rightarrow> string \<Rightarrow> (string \<times> string) list \<Rightarrow> (string \<times> string) list" where
  "appendFile hook line fs =
     (case map_of fs hook of
        None \<Rightarrow> fs @ [(hook, line)]
      | Some content \<Rightarrow> map (\<lambda>f. if fst f = hook then (fst f, snd f @ line) else f) fs)"

text \<open>\<open>storeEvent\<close>; the fresh \<open>crypto.randomUUID()\<close> and the clock's
  \<open>new Date().toISOString()\<close> are the arguments \<open>uuid\<close> and \<open>now\<close>.\<close>

definition storeEvent ::
  "env \<Rightarrow> string \<Rightarrow> string \<Rightarrow> string \<Rightarrow> json \<Rightarrow> json \<Rightarrow> store \<Rightarrow> event \<times> store" where
  "storeEvent env uuid now hook p m st =
     (let evt = \<lparr>e_id = uuid, e_hook = hook, receivedAt = now, meta = m, payload = p\<rparr>;
          (arr, st1) = ensureHookLoaded env hook st;
          st2 = set_array arr (evt # get_array st1 arr) st1;
          st3 = (if length (get_array st2 arr) > MAX_RECENT_PER_HOOK env
                 then set_array arr (butlast (get_array st2 arr)) st2 else st2);
          st4 = st3\<lparr>files := appendFile hook (stringify (event_json evt) @ [newline]) (files st3)\<rparr>
      in (evt, st4))"

subsection \<open>Sorting\<close>

text \<open>
  \<open>Array.prototype.sort\<close> with a comparator. The sort is stable (ECMAScript 2019), and
  for a comparator that orders the elements consistently the result is determined: the
  elements in the comparator's order, those that compare equal in their order in the
  input. This insertion sort computes it.
\<close>

fun insert_sorted :: "('a \<Rightarrow> 'a \<Rightarrow> int) \<Rightarrow> 'a \<Rightarrow> 'a list \<Rightarrow> 'a list" where
  "insert_sorted cmp x [] = [x]"
| "insert_sorted cmp x (y # ys) = (if cmp x y \<le> 0 then x # y # ys else y # insert_sorted cmp x ys)"

definition array_sort :: "('a \<Rightarrow> 'a \<Rightarrow> int) \<Rightarrow> 'a list \<Rightarrow> 'a list" where
  "array_sort cmp xs = foldr (insert_sorted cmp) xs []"

text \<open>The comparator of the three sorts by \<open>receivedAt\<close>.\<close>

definition byReceivedAt :: "event \<Rightarrow> event \<Rightarrow> int" where
  "byReceivedAt a b = (if receivedAt a < receivedAt b then 1 else if receivedAt a > receivedAt b then - 1 else 0)"

text \<open>\<open>listHooksOnDisk\<close>: the names of the log files in \<open>DATA_DIR\<close> without their
  extension, those that are allowed, sorted.\<close>

definition listHooksOnDisk :: "env \<Rightarrow> store \<Rightarrow> string list" where
  "listHooksOnDisk env st =
     array_sort (localeCompare env) (filter (isHookAllowed env) (map fst (files st)))"

subsection \<open>The query handlers\<close>

text \<open>\<open>Array.prototype.filter\<close> with a callback that can throw: the first exception ends
  the call.\<close>

fun filter_events :: "(event \<Rightarrow> error + bool) \<Rightarrow> event list \<Rightarrow> error + event list" where
  "filter_events f [] = Inr []"
| "filter_events f (e # es) =
     (case f e of
        Inl err \<Rightarrow> Inl err
      | Inr keep \<Rightarrow>
          (case filter_events f es of
             Inl err \<Rightarrow> Inl err
           | Inr rest \<Rightarrow> Inr (if keep then e # rest else rest)))"

text \<open>The test \<open>q || (value && value.trim())\<close> and the filter it guards.\<close>

definition has_filter :: "string \<Rightarrow> string \<Rightarrow> bool" where
  "has_filter q value = (q \<noteq> [] \<or> (value \<noteq> [] \<and> trim value \<noteq> []))"

definition apply_filter ::
  "env \<Rightarrow> string \<Rightarrow> string \<Rightarrow> string \<Rightarrow> event list \<Rightarrow> error + event list" where
  "apply_filter env q field value arr =
     (if has_filter q value
      then filter_events (\<lambda>evt. eventMatches (inherited env) evt q field value) arr else Inr arr)"

definition page :: "nat \<Rightarrow> event list \<Rightarrow> event list" where
  "page limit filtered = (if limit = 0 then filtered else take (min 5000 limit) filtered)"

text \<open>
  \<open>GET /api/hooks/:hook\<close>. The answer is the pair of \<open>count\<close> and \<open>items\<close>; the summary
  that decorates each item is a function of the item alone and is left out. An exception
  of the filter ends the request; the cache that was loaded stays.
\<close>

definition api_hook ::
  "env \<Rightarrow> string \<Rightarrow> string \<Rightarrow> string \<Rightarrow> string \<Rightarrow> limit_param \<Rightarrow> store
     \<Rightarrow> (error + nat \<times> event list) \<times> store" where
  "api_hook env hook_param q_param field value limit_param st =
     (let hook = trim hook_param
      in if \<not> isHookAllowed env hook then (Inl NotFound, st)
         else (let q = normalizeQ q_param;
                   limit = parseLimit limit_param;
                   (arr, st1) = ensureHookLoaded env hook st
               in (case apply_filter env q field value (get_array st1 arr) of
                     Inl err \<Rightarrow> (Inl err, st1)
                   | Inr filtered \<Rightarrow> (Inr (length filtered, page limit filtered), st1))))"

text \<open>The loop of \<open>GET /api/events\<close> that pushes every event of every hook onto
  \<open>combined\<close>, an array of its own.\<close>

fun combine :: "env \<Rightarrow> string list \<Rightarrow> event list \<Rightarrow> store \<Rightarrow> event list \<times> store" where
  "combine env [] combined st = (combined, st)"
| "combine env (h # hooks) combined st =
     (let (arr, st1) = ensureHookLoaded env h st
      in combine env hooks (combined @ get_array st1 arr) st1)"

text \<open>\<open>GET /api/events\<close>. \<open>filtered\<close> is \<open>combined\<close> or the new array of the filter, so
  the sort in place touches no cache.\<close>

definition api_events ::
  "env \<Rightarrow> string \<Rightarrow> string \<Rightarrow> string \<Rightarrow> limit_param \<Rightarrow> store \<Rightarrow> (error + nat \<times> event list) \<times> store" where
  "api_events env q_param field value limit_param st =
     (let q = normalizeQ q_param;
          limit = parseLimit limit_param;
          (combined, st1) = combine env (listHooksOnDisk env st) [] st
      in (case apply_filter env q field value combined of
            Inl err \<Rightarrow> (Inl err, st1)
          | Inr filtered \<Rightarrow>
              (let sorted = array_sort byReceivedAt filtered
               in (Inr (length sorted, page limit sorted), st1))))"

subsection \<open>The export handlers\<close>

text \<open>
  The two export handlers start with the same statements, up to the cut at
  \<open>MAX_EXPORT\<close>; they are \<open>export_events\<close>. The variable \<open>events\<close> holds a reference:
  \<open>concat\<close>, \<open>filter\<close> and \<open>slice\<close> make a new array, the assignment from
  \<open>ensureHookLoaded\<close> copies the reference of the cache, and \<open>sort\<close> writes the array that
  \<open>events\<close> refers to.
\<close>

fun concat_hooks :: "env \<Rightarrow> string list \<Rightarrow> nat \<Rightarrow> store \<Rightarrow> nat \<times> store" where
  "concat_hooks env [] events st = (events, st)"
| "concat_hooks env (h # hooks) events st =
     (let (arr, st1) = ensureHookLoaded env h st;
          (events1, st2) = new_array (get_array st1 events @ get_array st1 arr) st1
      in concat_hooks env hooks events1 st2)"

text \<open>The statements that resolve the scope: \<open>events\<close> starts as a new empty array.\<close>

definition resolve_scope :: "env \<Rightarrow> string \<Rightarrow> store \<Rightarrow> (error + nat) \<times> store" where
  "resolve_scope env scope st =
     (let (events0, st0) = new_array [] st
      in if scope = ''*''
         then (let (events1, st1) = concat_hooks env (listHooksOnDisk env st0) events0 st0
               in (Inr events1, st1))
         else if \<not> isHookAllowed env scope then (Inl NotFound, st0)
         else (let (events1, st1) = ensureHookLoaded env scope st0 in (Inr events1, st1)))"

text \<open>The filter, the sort in place and the cut; the answer is the array that \<open>events\<close>
  refers to in the end.\<close>

definition filter_sort_cut ::
  "env \<Rightarrow> string \<Rightarrow> string \<Rightarrow> string \<Rightarrow> nat \<Rightarrow> store \<Rightarrow> (error + event list) \<times> store" where
  "filter_sort_cut env q field value events st =
     (case (if has_filter q value
            then (case filter_events (\<lambda>evt. eventMatches (inherited env) evt q field value) (get_array st events) of
                    Inl err \<Rightarrow> Inl err
                  | Inr kept \<Rightarrow> Inr (new_array kept st))
            else Inr (events, st)) of
        Inl err \<Rightarrow> (Inl err, st)
      | Inr (events2, st2) \<Rightarrow>
          (let st3 = set_array events2 (array_sort byReceivedAt (get_array st2 events2)) st2;
               (events3, st4) =
                 (if length (get_array st3 events2) > MAX_EXPORT env
                  then new_array (take (MAX_EXPORT env) (get_array st3 events2)) st3
                  else (events2, st3))
           in (Inr (get_array st4 events3), st4)))"

definition export_scope :: "string \<Rightarrow> string" where
  "export_scope hook_param = trim (if hook_param = [] then ''*'' else hook_param)"

definition export_events ::
  "env \<Rightarrow> string \<Rightarrow> string \<Rightarrow> string \<Rightarrow> string \<Rightarrow> store \<Rightarrow> (error + event list) \<times> store" where
  "export_events env hook_param q_param field value st =
     (case resolve_scope env (export_scope hook_param) st of
        (Inl err, st1) \<Rightarrow> (Inl err, st1)
      | (Inr events, st1) \<Rightarrow> filter_sort_cut env (normalizeQ q_param) field value events st1)"

definition ndjson_body :: "event list \<Rightarrow> string" where
  "ndjson_body events =
     join [newline] (map (\<lambda>e. stringify (event_json e)) events) @ (if length events \<noteq> 0 then [newline] else [])"

definition export_ndjson ::
  "env \<Rightarrow> string \<Rightarrow> string \<Rightarrow> string \<Rightarrow> string \<Rightarrow> store \<Rightarrow> (error + string) \<times> store" where
  "export_ndjson env hook_param q_param field value st =
     (case export_events env hook_param q_param field value st of
        (Inl err, st1) \<Rightarrow> (Inl err, st1)
      | (Inr events, st1) \<Rightarrow> (Inr (ndjson_body events), st1))"

text \<open>\<open>String(x)\<close> on a JSON value.\<close>

fun js_String :: "json \<Rightarrow> string" where
  "js_String JNull = ''null''"
| "js_String (JBool b) = (if b then ''true'' else ''false'')"
| "js_String (JNum n) = string_text n"
| "js_String (JStr s) = s"
| "js_String (JArr vs) = join '','' (map (\<lambda>v. if v = JNull then [] else js_String v) vs)"
| "js_String (JObj kvs) = ''[object Object]''"

text \<open>\<open>csvEscape(e.meta?.name || "")\<close> for the three names \<open>ip\<close>, \<open>contentType\<close> and
  \<open>userAgent\<close> of the handler, which name no member of a prototype.\<close>

definition meta_field :: "event \<Rightarrow> string \<Rightarrow> string" where
  "meta_field e name =
     (case (if meta e = JNull then None else own_property (meta e) name) of
        None \<Rightarrow> csvEscape []
      | Some x \<Rightarrow> if truthy x then csvEscape (js_String x) else csvEscape [])"

definition csv_row :: "event \<Rightarrow> string" where
  "csv_row e =
     join '',''
       [csvEscape (receivedAt e), csvEscape (e_id e), csvEscape (e_hook e),
        meta_field e ''ip'', meta_field e ''contentType'', meta_field e ''userAgent'',
        csvEscape (stringifySafe (if payload e = JNull then JObj [] else payload e))]"

definition csv_body :: "event list \<Rightarrow> string" where
  "csv_body events =
     join [newline]
       (join '','' [''receivedAt'', ''id'', ''hook'', ''ip'', ''contentType'', ''userAgent'', ''payloadJson'']
        # map csv_row events) @ [newline]"

definition export_csv ::
  "env \<Rightarrow> string \<Rightarrow> string \<Rightarrow> string \<Rightarrow> string \<Rightarrow> store \<Rightarrow> (error + string) \<times> store" where
  "export_csv env hook_param q_param field value st =
     (case export_events env hook_param q_param field value st of
        (Inl err, st1) \<Rightarrow> (Inl err, st1)
      | (Inr events, st1) \<Rightarrow> (Inr (csv_body events), st1))"

section \<open>Reference notions for the claims\<close>

text \<open>
  The nodes that the loop of \<open>deepAny\<close> can visit from a value reached under the key
  \<open>key\<close>, each with the key that the predicate receives for it.
\<close>

fun visited :: "string option \<Rightarrow> json \<Rightarrow> (string option \<times> json) list" where
  "visited key (JArr vs) = (key, JArr vs) # concat (map (visited key) vs)"
| "visited key (JObj kvs) =
     (key, JObj kvs) # concat (map (\<lambda>kv. visited (Some (fst kv)) (snd kv)) kvs)"
| "visited key v = [(key, v)]"

text \<open>The object properties of a value: the key/value pairs of every object in it, at any
  depth, through arrays and objects.\<close>

fun props :: "json \<Rightarrow> (string \<times> json) list" where
  "props (JArr vs) = concat (map props vs)"
| "props (JObj kvs) = concat (map (\<lambda>kv. (fst kv, snd kv) # props (snd kv)) kvs)"
| "props v = []"

text \<open>A value and, when it is an array, the elements of the array, of the arrays among
  them, and so on; objects are not entered.\<close>

fun elements :: "json \<Rightarrow> json list" where
  "elements (JArr vs) = JArr vs # concat (map elements vs)"
| "elements v = [v]"

text \<open>The field-token match as the claim words it: some object property of the event has
  the key, case-insensitively, and a stringified value that contains the token's value.\<close>

definition property_match :: "json \<Rightarrow> string \<Rightarrow> string \<Rightarrow> bool" where
  "property_match obj keyLower valueLower =
     list_ex (\<lambda>kv. toLowerCase (fst kv) = keyLower
                \<and> str_includes (toLowerCase (stringifySafe (snd kv))) valueLower) (props obj)"

text \<open>
  Reading a field of a CSV file back (RFC 4180): a field in double quotes stands for its
  content with each pair of double quotes halved, any other field for itself.
\<close>

fun undouble :: "string \<Rightarrow> string" where
  "undouble (a # b # cs) = (if a = quote \<and> b = quote then quote # undouble cs else a # undouble (b # cs))"
| "undouble cs = cs"

definition csvUnescape :: "string \<Rightarrow> string" where
  "csvUnescape f =
     (if 2 \<le> length f \<and> startsWith f [quote] \<and> endsWith f [quote]
      then undouble (butlast (tl f)) else f)"

text \<open>
  The load as the claim words it. The lines of a file end at its line feeds; what follows
  the last line feed is a line when it is not empty. The last \<open>n\<close> lines are kept, each is
  parsed, and the lines that parse are returned.
\<close>

definition file_lines :: "string \<Rightarrow> string list" where
  "file_lines content = (let ps = split_on newline content in if last ps = [] then butlast ps else ps)"

definition last_n :: "nat \<Rightarrow> 'a list \<Rightarrow> 'a list" where
  "last_n n xs = drop (length xs - n) xs"

definition load_claimed :: "nat \<Rightarrow> (string \<Rightarrow> 'r option) \<Rightarrow> (string \<times> string) list \<Rightarrow> string \<Rightarrow> 'r list" where
  "load_claimed max_recent parse fs hook =
     (case map_of fs hook of
        None \<Rightarrow> []
      | Some content \<Rightarrow> List.map_filter parse (last_n max_recent (file_lines content)))"

text \<open>The load as amended: the content is trimmed and split at its line feeds, the empty
  pieces are dropped before the last \<open>n\<close> are kept, and of the parsed values the falsy
  ones are dropped as well.\<close>

definition load_amended ::
  "nat \<Rightarrow> (string \<Rightarrow> 'r option) \<Rightarrow> ('r \<Rightarrow> bool) \<Rightarrow> (string \<times> string) list \<Rightarrow> string \<Rightarrow> 'r list" where
  "load_amended max_recent parse is_truthy fs hook =
     (case map_of fs hook of
        None \<Rightarrow> []
      | Some content \<Rightarrow>
          filter is_truthy
            (List.map_filter parse
               (last_n max_recent (filter (\<lambda>l. l \<noteq> []) (split_on newline (trim content))))))"

text \<open>The number \<open>1\<close>, and what \<open>JSON.parse\<close> makes of the lines of the examples below;
  it throws on the empty string.\<close>

definition number_1 :: number where
  "number_1 = \<lparr>json_text = ''1'', string_text = ''1'', nonzero = True\<rparr>"

definition parse_lines :: "string \<Rightarrow> json option" where
  "parse_lines = map_of [(''{}'', JObj []), (''null'', JNull), (''{\"a\":1}'', JObj [(''a'', JNum number_1)])]"

text \<open>The store as the claims speak of it: the cache of a hook once it is loaded; the
  events that \<open>ensureHookLoaded\<close> answers with, loaded or not; and the events of a scope,
  a hook or all hooks on disk.\<close>

definition cache_of :: "store \<Rightarrow> string \<Rightarrow> event list option" where
  "cache_of st hook = map_option (get_array st) (map_of (recentByHook st) hook)"

definition hook_events :: "env \<Rightarrow> store \<Rightarrow> string \<Rightarrow> event list" where
  "hook_events env st hook =
     (case map_of (recentByHook st) hook of
        Some a \<Rightarrow> get_array st a
      | None \<Rightarrow> loadHook (MAX_RECENT_PER_HOOK env) (JSON_parse env) (\<lambda>e. True) (files st) hook)"

definition scope_events :: "env \<Rightarrow> store \<Rightarrow> string \<Rightarrow> event list" where
  "scope_events env st scope =
     (if scope = ''*'' then concat (map (hook_events env st) (listHooksOnDisk env st))
      else hook_events env st scope)"

text \<open>The references of the caches are references of the heap, and no two hooks share
  one.\<close>

definition wf_store :: "store \<Rightarrow> bool" where
  "wf_store st =
     (list_all (\<lambda>ha. snd ha < length (arrays st)) (recentByHook st)
      \<and> distinct (map fst (recentByHook st)) \<and> distinct (map snd (recentByHook st)))"

text \<open>A reference of the heap that is the cache of no hook.\<close>

definition local_ref :: "store \<Rightarrow> nat \<Rightarrow> bool" where
  "local_ref st a \<longleftrightarrow> a < length (arrays st) \<and> a \<notin> snd ` set (recentByHook st)"

text \<open>
  The store \<open>st'\<close> differs from \<open>st\<close> by new arrays and by caches loaded from disk at
  most: every hook has the events it had, or would have had on its first access.
\<close>

definition hydrates :: "env \<Rightarrow> store \<Rightarrow> store \<Rightarrow> bool" where
  "hydrates env st st' \<longleftrightarrow>
     wf_store st' \<and> files st' = files st
     \<and> (\<forall>h. hook_events env st' h = hook_events env st h)
     \<and> (\<forall>h b. map_of (recentByHook st) h = Some b \<longrightarrow> map_of (recentByHook st') h = Some b)
     \<and> length (arrays st) \<le> length (arrays st')
     \<and> (\<forall>a. local_ref st a \<longrightarrow> local_ref st' a)"

text \<open>Events of a hook, numbered by the day of their arrival, and the two lines that
  \<open>storeEvent\<close> writes for the first two of the hook \<open>tracks\<close>.\<close>

definition ev :: "string \<Rightarrow> string \<Rightarrow> event" where
  "ev hook n = \<lparr>e_id = n, e_hook = hook, receivedAt = ''2026-01-0'' @ n, meta = JNull, payload = JNull\<rparr>"

definition line_1 :: string where
  "line_1 = ''{\"id\":\"1\",\"hook\":\"tracks\",\"receivedAt\":\"2026-01-01\",\"meta\":null,\"payload\":null}''"

definition line_2 :: string where
  "line_2 = ''{\"id\":\"2\",\"hook\":\"tracks\",\"receivedAt\":\"2026-01-02\",\"meta\":null,\"payload\":null}''"

text \<open>The prototypes on the paths of the examples below: \<open>hook\<close>, \<open>payload\<close>,
  \<open>Driver\<close>, \<open>Vehicle\<close> and \<open>Callsign\<close> name no member that a value inherits.\<close>

definition no_inherited :: prototypes where
  "no_inherited cur parts = None"

text \<open>The prototypes on the path \<open>constructor.name\<close> from an object: the constructor of
  an object that \<open>JSON.parse\<close> builds is the function \<open>Object\<close>, for which
  \<open>JSON.stringify\<close> returns \<open>undefined\<close>, and its name is the string \<open>Object\<close>.\<close>

definition object_constructor :: prototypes where
  "object_constructor cur parts =
     (case cur of
        JObj kvs \<Rightarrow>
          if parts = [''constructor'', ''name''] then Some (Inr ''Object'')
          else if parts = [''constructor''] then Some (Inl TypeError)
          else None
      | _ \<Rightarrow> None)"

text \<open>
  A process with a cache of two events per hook and an export cap of one, which starts on a
  log of two events of the hook \<open>tracks\<close>: \<open>store2\<close> before the first access to the hook,
  \<open>store2_loaded\<close> after it. \<open>JSON.parse\<close> reads the two lines back.
\<close>

definition env2 :: env where
  "env2 =
     \<lparr>MAX_RECENT_PER_HOOK = 2, MAX_EXPORT = 1, HOOK_ALLOWLIST = [],
      JSON_parse = map_of [(line_1, ev ''tracks'' ''1''), (line_2, ev ''tracks'' ''2'')],
      localeCompare = (\<lambda>a b. if a < b then - 1 else if b < a then 1 else 0),
      inherited = no_inherited\<rparr>"

definition store2 :: store where
  "store2 =
     \<lparr>arrays = [], recentByHook = [],
      files = [(''tracks'', line_1 @ [newline] @ line_2 @ [newline])]\<rparr>"

definition store2_loaded :: store where
  "store2_loaded =
     \<lparr>arrays = [[ev ''tracks'' ''1'', ev ''tracks'' ''2'']], recentByHook = [(''tracks'', 0)],
      files = [(''tracks'', line_1 @ [newline] @ line_2 @ [newline])]\<rparr>"






text \<open>The event of the specification's examples, and one whose payload holds an array
  with a backslash in a string.\<close>

definition ev_callsign :: event where
  "ev_callsign =
     \<lparr>e_id = ''id-1'', e_hook = ''tracks'', receivedAt = ''2026-01-01T00:00:01.000Z'',
      meta = JObj [(''ip'', JStr ''10.0.0.1''), (''userAgent'', JNull), (''contentType'', JStr ''application/json'')],
      payload = JObj [(''EventType'', JStr ''BookingCreated''), (''Driver'', JObj [(''Callsign'', JStr ''51'')])]\<rparr>"

definition ev_array :: event where
  "ev_array =
     \<lparr>e_id = ''id-2'', e_hook = ''tracks'', receivedAt = ''2026-01-01T00:00:02.000Z'',
      meta = JObj [(''ip'', JStr ''10.0.0.1''), (''userAgent'', JNull), (''contentType'', JNull)],
      payload = JObj [(''k'', JArr [JStr [CHR ''a'', backslash, CHR ''b'']])]\<rparr>"

text \<open>
  Two events of the hook \<open>tracks\<close>, the earlier with a driver and the later with a
  vehicle of call sign \<open>51\<close>, the lines that \<open>storeEvent\<close> writes for them, and the store
  after the two came in: the cache holds the later event first.
\<close>

definition ev_driver :: event where
  "ev_driver =
     \<lparr>e_id = ''1'', e_hook = ''tracks'', receivedAt = ''2026-01-01'', meta = JNull,
      payload = JObj [(''Driver'', JObj [(''Callsign'', JStr ''51'')])]\<rparr>"

definition ev_vehicle :: event where
  "ev_vehicle =
     \<lparr>e_id = ''2'', e_hook = ''tracks'', receivedAt = ''2026-01-02'', meta = JNull,
      payload = JObj [(''Vehicle'', JObj [(''Callsign'', JStr ''51'')])]\<rparr>"

definition line_driver :: string where
  "line_driver =
     ''{\"id\":\"1\",\"hook\":\"tracks\",\"receivedAt\":\"2026-01-01\",\"meta\":null,\"payload\":{\"Driver\":{\"Callsign\":\"51\"}}}''"

definition line_vehicle :: string where
  "line_vehicle =
     ''{\"id\":\"2\",\"hook\":\"tracks\",\"receivedAt\":\"2026-01-02\",\"meta\":null,\"payload\":{\"Vehicle\":{\"Callsign\":\"51\"}}}''"

definition env_mixed :: env where
  "env_mixed =
     \<lparr>MAX_RECENT_PER_HOOK = 2, MAX_EXPORT = 2, HOOK_ALLOWLIST = [],
      JSON_parse = map_of [(line_driver, ev_driver), (line_vehicle, ev_vehicle)],
      localeCompare = (\<lambda>a b. if a < b then - 1 else if b < a then 1 else 0),
      inherited = no_inherited\<rparr>"

definition store_mixed :: store where
  "store_mixed =
     \<lparr>arrays = [[ev_vehicle, ev_driver]], recentByHook = [(''tracks'', 0)],
      files = [(''tracks'', line_driver @ [newline] @ line_vehicle @ [newline])]\<rparr>"

section \<open>The query language: properties\<close>

subsection \<open>The stack loop of \<open>deepAny\<close> visits exactly the nodes of the value\<close>

lemma deepAny_loop_visited:
  "deepAny_loop P stack = (\<exists>p \<in> set stack. \<exists>n \<in> set (visited (snd p) (fst p)). P (fst n) (snd n))"
proof (induction P stack rule: deepAny_loop.induct)
  case (1 P)
  show ?case by simp
next
  case (2 P v key stack)
  have vis: "(\<exists>n \<in> set (visited key v). P (fst n) (snd n))
      = (P key v \<or> (\<exists>p \<in> set (pushed v key). \<exists>n \<in> set (visited (snd p) (fst p)). P (fst n) (snd n)))"
    by (cases v) (auto simp: pushed_def)
  show ?case
  proof (cases "P key v")
    case True
    then show ?thesis using vis by auto
  next
    case False
    then show ?thesis using 2 vis by auto
  qed
qed

lemma visited_mem:
  "(k', x) \<in> set (visited key v) \<longleftrightarrow>
     (k' = key \<and> x \<in> set (elements v)) \<or>
     (\<exists>k w. k' = Some k \<and> (k, w) \<in> set (props v) \<and> x \<in> set (elements w))"
proof (induction key v arbitrary: k' x rule: visited.induct)
  case (1 key vs)
  have "(k', x) \<in> set (visited key (JArr vs)) \<longleftrightarrow>
        (k' = key \<and> x = JArr vs) \<or> (\<exists>u \<in> set vs. (k', x) \<in> set (visited key u))"
    by auto
  also have "\<dots> \<longleftrightarrow> (k' = key \<and> x = JArr vs) \<or>
        (\<exists>u \<in> set vs. (k' = key \<and> x \<in> set (elements u)) \<or>
           (\<exists>k w. k' = Some k \<and> (k, w) \<in> set (props u) \<and> x \<in> set (elements w)))"
    using 1 by meson
  also have "\<dots> \<longleftrightarrow> (k' = key \<and> x \<in> set (elements (JArr vs))) \<or>
     (\<exists>k w. k' = Some k \<and> (k, w) \<in> set (props (JArr vs)) \<and> x \<in> set (elements w))"
    by simp blast
  finally show ?case .
next
  case (2 key kvs)
  have "(k', x) \<in> set (visited key (JObj kvs)) \<longleftrightarrow>
        (k' = key \<and> x = JObj kvs) \<or> (\<exists>kv \<in> set kvs. (k', x) \<in> set (visited (Some (fst kv)) (snd kv)))"
    by auto
  also have "\<dots> \<longleftrightarrow> (k' = key \<and> x = JObj kvs) \<or>
        (\<exists>kv \<in> set kvs. (k' = Some (fst kv) \<and> x \<in> set (elements (snd kv))) \<or>
           (\<exists>k w. k' = Some k \<and> (k, w) \<in> set (props (snd kv)) \<and> x \<in> set (elements w)))"
    using 2 by meson
  also have "\<dots> \<longleftrightarrow> (k' = key \<and> x \<in> set (elements (JObj kvs))) \<or>
     (\<exists>k w. k' = Some k \<and> (k, w) \<in> set (props (JObj kvs)) \<and> x \<in> set (elements w))"
    by (simp add: Bex_def) blast
  finally show ?case .
qed auto

subsection \<open>The selected-field filter\<close>

text \<open>Any path that does not resolve makes the filter throw, for a value that is not blank.\<close>

lemma selected_field_unresolved:
  assumes "trim value \<noteq> []" and "trim fieldPath \<noteq> []" and "trim fieldPath \<noteq> ''any''"
    and "trim fieldPath \<noteq> ''fulltext''" and "getByPath inh (event_json evt) (trim fieldPath) = Unresolved"
  shows "eventMatchesSelectedField inh evt fieldPath value = Inl TypeError"
  using assms by (simp add: eventMatchesSelectedField_def toLowerCase_def)

text \<open>A path that leaves the event for a member of a prototype is answered as the runtime
  answers it: the name of the constructor of the payload contains \<open>object\<close>, and the
  constructor itself, a function, makes the filter throw.\<close>

lemma selected_field_inherited:
  assumes "trim value \<noteq> []" and "trim fieldPath \<noteq> []" and "trim fieldPath \<noteq> ''any''"
    and "trim fieldPath \<noteq> ''fulltext''"
    and "getByPath inh (event_json evt) (trim fieldPath) = Inherited outcome"
  shows "eventMatchesSelectedField inh evt fieldPath value =
      (case outcome of
         Inl err \<Rightarrow> Inl err
       | Inr text \<Rightarrow> Inr (str_includes (toLowerCase text) (toLowerCase (trim value))))"
  using assms by (simp add: eventMatchesSelectedField_def toLowerCase_def split: sum.splits)

lemma selected_field_inherited_example:
  "eventMatchesSelectedField object_constructor ev_callsign ''payload.constructor.name'' ''object'' = Inr True
   \<and> eventMatchesSelectedField object_constructor ev_callsign ''payload.constructor.name'' ''51'' = Inr False
   \<and> eventMatchesSelectedField object_constructor ev_callsign ''payload.constructor'' ''object''
       = Inl TypeError"
  by code_simp

text \<open>The steps of the loop of \<open>getByPath\<close>, and the unresolved path of the
  specification's example under any prototypes with no member \<open>Vehicle\<close> for the
  payload.\<close>

lemma walk_undefined: "walk inh None parts = Unresolved"
  by (cases parts) simp_all

lemma walk_own:
  "v \<noteq> JNull \<Longrightarrow> own_property v p = Some w
     \<Longrightarrow> walk inh (Some v) (p # parts) = walk inh (Some w) parts"
  by (cases v) simp_all

lemma walk_not_inherited:
  "v \<noteq> JNull \<Longrightarrow> own_property v p = None \<Longrightarrow> inh v (p # parts) = None
     \<Longrightarrow> walk inh (Some v) (p # parts) = Unresolved"
  by (cases v) (simp_all add: walk_undefined)

lemma selected_field_unresolved_any_prototypes:
  assumes "inh (payload ev_callsign) [''Vehicle'', ''Callsign''] = None"
  shows "eventMatchesSelectedField inh ev_callsign ''payload.Vehicle.Callsign'' ''51'' = Inl TypeError"
proof -
  have parts: "filter (\<lambda>p. p \<noteq> []) (split_on CHR ''.'' (trim ''payload.Vehicle.Callsign''))
      = [''payload'', ''Vehicle'', ''Callsign'']"
    by code_simp
  have path: "trim ''payload.Vehicle.Callsign'' = ''payload.Vehicle.Callsign''" by code_simp
  have v: "toLowerCase (trim ''51'') = ''51''" by code_simp
  have root: "truthy (event_json ev_callsign)" by code_simp
  then have e: "event_json ev_callsign \<noteq> JNull" by (auto simp: truthy_def)
  have p: "own_property (event_json ev_callsign) ''payload'' = Some (payload ev_callsign)" by code_simp
  have n: "payload ev_callsign \<noteq> JNull" by code_simp
  have u: "own_property (payload ev_callsign) ''Vehicle'' = None" by code_simp
  have "walk inh (Some (event_json ev_callsign)) [''payload'', ''Vehicle'', ''Callsign'']
      = walk inh (Some (payload ev_callsign)) [''Vehicle'', ''Callsign'']"
    using e p by (rule walk_own)
  also have "\<dots> = Unresolved" using n u assms by (rule walk_not_inherited)
  finally have "getByPath inh (event_json ev_callsign) ''payload.Vehicle.Callsign'' = Unresolved"
    using parts path root by (simp add: getByPath_def)
  then show ?thesis using path v by (simp add: eventMatchesSelectedField_def Let_def)
qed

text \<open>
  Claim C2. The selected-field filter is to resolve the path from the event root and to
  match when the stringified value, or the empty string when a segment does not resolve,
  contains the filter value; so the event with payload \<open>{"Driver":{"Callsign":"51"}}\<close>
  is to match \<open>payload.Driver.Callsign\<close> = \<open>51\<close> and not to match
  \<open>payload.Vehicle.Callsign\<close> = \<open>51\<close>. The first holds. On the second the path does not
  resolve, and the filter does not answer \<open>false\<close>: it throws a \<open>TypeError\<close>.
\<close>

theorem selected_field_unresolved_path_throws:
  "eventMatchesSelectedField no_inherited ev_callsign ''payload.Driver.Callsign'' ''51'' = Inr True
   \<and> getByPath no_inherited (event_json ev_callsign) ''payload.Vehicle.Callsign'' = Unresolved
   \<and> eventMatchesSelectedField no_inherited ev_callsign ''payload.Vehicle.Callsign'' ''51'' = Inl TypeError"
  by code_simp

text \<open>The filter gives no answer on the unresolved path: neither a match nor a miss.\<close>

theorem selected_field_unresolved_path_throws_witness:
  "eventMatchesSelectedField no_inherited ev_callsign ''payload.Vehicle.Callsign'' ''51'' \<noteq> Inr False
   \<and> eventMatchesSelectedField no_inherited ev_callsign ''payload.Vehicle.Callsign'' ''51'' \<noteq> Inr True"
  using selected_field_unresolved_path_throws by simp

subsection \<open>Field tokens\<close>

text \<open>
  Claim C5, as stated: a field token matches exactly when some object property of the
  event has the token's key and a stringified value that contains the token's value. This
  fails where the value of the property is an array: the loop also tests each element of
  the array under the array's key, and a string element is compared as it is, while inside
  the stringified array it is quoted and escaped. The token \<open>k:a\b\<close> matches the payload
  \<open>{"k":["a\\b"]}\<close>, and no property of that event has a stringified value with \<open>a\b\<close>
  in it.
\<close>

theorem field_token_array_element_counterexample:
  "eventMatchesFieldToken ev_array ''k'' [CHR ''a'', backslash, CHR ''b'']
   \<and> \<not> property_match (event_json ev_array) ''k'' [CHR ''a'', backslash, CHR ''b'']"
  by code_simp

text \<open>
  Claim C5, amended: a field token with a non-empty key matches exactly when some object
  property of the event, at any depth, has the token's key case-insensitively and the
  token's value is contained, case-insensitively, in the stringified value of the property
  or of an element of that value when it is an array (of an element of such an element,
  and so on).
\<close>

theorem field_token_matches_iff:
  assumes "keyLower \<noteq> []"
  shows "eventMatchesFieldToken evt keyLower valueLower \<longleftrightarrow>
     (\<exists>kv \<in> set (props (event_json evt)). toLowerCase (fst kv) = keyLower \<and>
        (\<exists>x \<in> set (elements (snd kv)). str_includes (toLowerCase (stringifySafe x)) valueLower))"
     (is "?L \<longleftrightarrow> ?R")
proof
  assume ?L
  then obtain n where n: "n \<in> set (visited None (event_json evt))"
      and p: "field_predicate keyLower valueLower (fst n) (snd n)"
    by (auto simp: eventMatchesFieldToken_def deepAny_def deepAny_loop_visited)
  from p obtain f where f: "fst n = Some f" "toLowerCase f = keyLower"
      "str_includes (toLowerCase (stringifySafe (snd n))) valueLower"
    by (auto simp: field_predicate_def split: option.splits if_splits)
  from n f(1) have "(Some f, snd n) \<in> set (visited None (event_json evt))"
    by (metis prod.collapse)
  then obtain w where "(f, w) \<in> set (props (event_json evt))" "snd n \<in> set (elements w)"
    unfolding visited_mem by blast
  with f show ?R by force
next
  assume ?R
  then obtain k w x where kw: "(k, w) \<in> set (props (event_json evt))" "toLowerCase k = keyLower"
      "x \<in> set (elements w)" "str_includes (toLowerCase (stringifySafe x)) valueLower"
    by force
  from kw(2) assms have "k \<noteq> []" by (auto simp: toLowerCase_def)
  with kw have "field_predicate keyLower valueLower (Some k) x"
    by (simp add: field_predicate_def)
  moreover from kw have "(Some k, x) \<in> set (visited None (event_json evt))"
    unfolding visited_mem by blast
  ultimately show ?L
    unfolding eventMatchesFieldToken_def deepAny_def deepAny_loop_visited by force
qed

text \<open>The token \<open>callsign:51\<close> on the payload \<open>{"Driver":{"Callsign":"51"}}\<close>: the property
  \<open>Callsign\<close> lies two objects deep.\<close>

theorem field_token_matches_iff_witness:
  "''callsign'' \<noteq> [] \<and> eventMatchesFieldToken ev_callsign ''callsign'' ''51''"
proof -
  have k: "''callsign'' \<noteq> []" by simp
  have "\<exists>kv \<in> set (props (event_json ev_callsign)). toLowerCase (fst kv) = ''callsign'' \<and>
        (\<exists>x \<in> set (elements (snd kv)). str_includes (toLowerCase (stringifySafe x)) ''51'')"
    by code_simp
  with field_token_matches_iff [OF k, of ev_callsign "''51''"] k show ?thesis by blast
qed

subsection \<open>The combined matcher\<close>







section \<open>Tabular export: escaping\<close>

lemma undouble_not_quote: "a \<noteq> quote \<Longrightarrow> undouble (a # cs) = a # undouble cs"
  by (cases cs) auto

lemma undouble_doubled:
  "undouble (concat (map (\<lambda>c. if c = quote then [quote, quote] else [c]) s)) = s"
  by (induction s) (auto simp: undouble_not_quote)

lemma plain_field_not_quoted: "\<not> list_ex csv_special s \<Longrightarrow> \<not> startsWith s [quote]"
  by (cases s) (auto simp: csv_special_def)

text \<open>
  Claim C8, as stated: the value is wrapped exactly when it holds a comma, a double quote
  or a newline. A value with a carriage return and none of the three is wrapped as well.
\<close>

theorem csvEscape_carriage_return_counterexample:
  "\<not> list_ex (\<lambda>c. c = CHR '','' \<or> c = quote \<or> c = newline) [CHR ''a'', carriage_return, CHR ''b'']
   \<and> csvEscape [CHR ''a'', carriage_return, CHR ''b''] = [quote, CHR ''a'', carriage_return, CHR ''b'', quote]"
  by code_simp

text \<open>
  Claim C8, amended: \<open>csvEscape\<close> wraps a string in double quotes, with each double quote
  of it doubled, exactly when the string holds a comma, a double quote, a line feed or a
  carriage return, and leaves it unchanged otherwise; and reading the escaped field back
  gives the string, whatever it holds.
\<close>

theorem csvEscape_law:
  "csvEscape s =
     (if \<exists>c \<in> set s. c = CHR '','' \<or> c = quote \<or> c = newline \<or> c = carriage_return
      then [quote] @ concat (map (\<lambda>c. if c = quote then [quote, quote] else [c]) s) @ [quote]
      else s)
   \<and> csvUnescape (csvEscape s) = s"
proof
  have "list_ex csv_special s \<longleftrightarrow> (\<exists>c \<in> set s. c = CHR '','' \<or> c = quote \<or> c = newline \<or> c = carriage_return)"
    by (auto simp: list_ex_iff csv_special_def)
  then show "csvEscape s =
     (if \<exists>c \<in> set s. c = CHR '','' \<or> c = quote \<or> c = newline \<or> c = carriage_return
      then [quote] @ concat (map (\<lambda>c. if c = quote then [quote, quote] else [c]) s) @ [quote]
      else s)"
    by (simp add: csvEscape_def)
next
  show "csvUnescape (csvEscape s) = s"
  proof (cases "list_ex csv_special s")
    case True
    then show ?thesis
      by (simp add: csvUnescape_def csvEscape_def endsWith_def undouble_doubled)
  next
    case False
    with plain_field_not_quoted [OF False] show ?thesis
      by (simp add: csvUnescape_def csvEscape_def)
  qed
qed

text \<open>The value \<open>a,"b"\<close>, a line feed, \<open>c\<close>: a comma, double quotes and a newline.\<close>

theorem csvEscape_law_witness:
  "csvEscape (''a,\"b\"'' @ [newline] @ ''c'') = ''\"a,\"\"b\"\"'' @ [newline] @ ''c\"''
   \<and> csvUnescape (csvEscape (''a,\"b\"'' @ [newline] @ ''c'')) = ''a,\"b\"'' @ [newline] @ ''c''"
proof -
  have "csvEscape (''a,\"b\"'' @ [newline] @ ''c'') = ''\"a,\"\"b\"\"'' @ [newline] @ ''c\"''"
    by code_simp
  moreover from csvEscape_law [of "''a,\"b\"'' @ [newline] @ ''c''"]
  have "csvUnescape (csvEscape (''a,\"b\"'' @ [newline] @ ''c'')) = ''a,\"b\"'' @ [newline] @ ''c''"
    by (rule conjunct2)
  ultimately show ?thesis by (rule conjI)
qed

section \<open>The store: properties\<close>

subsection \<open>\<open>loadHook\<close>\<close>

lemma map_filter_truthy:
  "List.map_filter (\<lambda>l. case parse l of None \<Rightarrow> None | Some r \<Rightarrow> if tr r then Some r else None) ls
     = filter tr (List.map_filter parse ls)"
  by (induction ls) (auto split: option.splits)

lemma length_map_filter_le: "length (List.map_filter f xs) \<le> length xs"
  by (induction xs) (auto split: option.splits)

lemma length_last_n: "length (last_n n xs) \<le> n"
  by (simp add: last_n_def)

text \<open>
  Claim C4, as stated: the load splits the file into lines, keeps the last
  \<open>MAX_RECENT_PER_HOOK\<close> lines, parses each and returns the values of the lines that
  parse, in file order. Two files on which \<open>loadHook\<close> answers otherwise: a line \<open>null\<close>
  parses and is dropped all the same, for its value is falsy; with a cap of two, an empty
  line between two records does not count among the last two lines, so that both records
  are returned; and with a cap of zero, \<open>slice(-0)\<close> keeps every line.
\<close>

theorem loadHook_claimed_counterexample:
  "loadHook 500 parse_lines truthy [(''tracks'', ''{}'' @ [newline] @ ''null'' @ [newline])] ''tracks'' = [JObj []]
   \<and> load_claimed 500 parse_lines [(''tracks'', ''{}'' @ [newline] @ ''null'' @ [newline])] ''tracks'' = [JObj [], JNull]
   \<and> loadHook 2 parse_lines truthy [(''tracks'', ''{\"a\":1}'' @ [newline, newline] @ ''{}'' @ [newline])] ''tracks''
       = [JObj [(''a'', JNum number_1)], JObj []]
   \<and> load_claimed 2 parse_lines [(''tracks'', ''{\"a\":1}'' @ [newline, newline] @ ''{}'' @ [newline])] ''tracks''
       = [JObj []]
   \<and> loadHook 0 parse_lines truthy [(''tracks'', ''{}'' @ [newline])] ''tracks'' = [JObj []]
   \<and> load_claimed 0 parse_lines [(''tracks'', ''{}'' @ [newline])] ''tracks'' = []"
  by code_simp

text \<open>
  Claim C4, amended: for a cap of at least one, the load returns the empty sequence when
  the file does not exist, and otherwise trims the content, splits it at the line feeds,
  drops the empty lines, keeps the last \<open>MAX_RECENT_PER_HOOK\<close> of the others, parses each
  of them, drops the lines that do not parse and those that parse to a falsy value, and
  returns the rest in file order; it returns at most \<open>MAX_RECENT_PER_HOOK\<close> records.
\<close>

theorem loadHook_amended:
  assumes "0 < max_recent"
  shows "loadHook max_recent parse is_truthy fs hook = load_amended max_recent parse is_truthy fs hook
     \<and> length (loadHook max_recent parse is_truthy fs hook) \<le> max_recent
     \<and> (map_of fs hook = None \<longrightarrow> loadHook max_recent parse is_truthy fs hook = [])"
proof -
  have eq: "loadHook max_recent parse is_truthy fs hook = load_amended max_recent parse is_truthy fs hook"
  proof (cases "map_of fs hook")
    case None
    then show ?thesis by (simp add: loadHook_def load_amended_def)
  next
    case (Some content)
    show ?thesis
    proof (cases "trim content = []")
      case True
      with Some show ?thesis
        by (simp add: loadHook_def load_amended_def last_n_def)
    next
      case False
      with Some assms show ?thesis
        by (simp add: loadHook_def load_amended_def Let_def slice_last_def last_n_def map_filter_truthy)
    qed
  qed
  have "length (load_amended max_recent parse is_truthy fs hook) \<le> max_recent"
  proof (cases "map_of fs hook")
    case None
    then show ?thesis by (simp add: load_amended_def)
  next
    case (Some content)
    let ?ls = "last_n max_recent (filter (\<lambda>l. l \<noteq> []) (split_on newline (trim content)))"
    have "length (filter is_truthy (List.map_filter parse ?ls)) \<le> length (List.map_filter parse ?ls)"
      by simp
    also have "\<dots> \<le> length ?ls" by (rule length_map_filter_le)
    also have "\<dots> \<le> max_recent" by (rule length_last_n)
    finally show ?thesis using Some by (simp add: load_amended_def)
  qed
  with eq show ?thesis by (simp add: loadHook_def)
qed

text \<open>A file with an empty line and a line \<open>null\<close> between two records, under a cap of
  three.\<close>

theorem loadHook_amended_witness:
  "(0::nat) < 3
   \<and> loadHook 3 parse_lines truthy
        [(''tracks'', ''{\"a\":1}'' @ [newline, newline] @ ''null'' @ [newline] @ ''{}'' @ [newline])] ''tracks''
       = [JObj [(''a'', JNum number_1)], JObj []]"
proof -
  have p: "(0::nat) < 3" by simp
  have s: "load_amended 3 parse_lines truthy
        [(''tracks'', ''{\"a\":1}'' @ [newline, newline] @ ''null'' @ [newline] @ ''{}'' @ [newline])] ''tracks''
       = [JObj [(''a'', JNum number_1)], JObj []]"
    by code_simp
  from loadHook_amended [OF p, of parse_lines truthy
      "[(''tracks'', ''{\"a\":1}'' @ [newline, newline] @ ''null'' @ [newline] @ ''{}'' @ [newline])]" "''tracks''"]
  have "loadHook 3 parse_lines truthy
        [(''tracks'', ''{\"a\":1}'' @ [newline, newline] @ ''null'' @ [newline] @ ''{}'' @ [newline])] ''tracks''
      = load_amended 3 parse_lines truthy
        [(''tracks'', ''{\"a\":1}'' @ [newline, newline] @ ''null'' @ [newline] @ ''{}'' @ [newline])] ''tracks''"
    by (rule conjunct1)
  with s p show ?thesis by (simp only: simp_thms)
qed

subsection \<open>The sort\<close>

lemma mset_insert_sorted: "mset (insert_sorted cmp x ys) = add_mset x (mset ys)"
  by (induction ys) auto

lemma mset_array_sort: "mset (array_sort cmp xs) = mset xs"
  by (induction xs) (auto simp: array_sort_def mset_insert_sorted)

lemma set_array_sort: "set (array_sort cmp xs) = set xs"
  using mset_array_sort [of cmp xs] by (metis set_mset_mset)

lemma length_array_sort: "length (array_sort cmp xs) = length xs"
  using mset_array_sort [of cmp xs] by (metis size_mset)

lemma array_sort_Cons: "array_sort cmp (x # xs) = insert_sorted cmp x (array_sort cmp xs)"
  by (simp add: array_sort_def)

lemma byReceivedAt_le0: "byReceivedAt a b \<le> 0 \<longleftrightarrow> receivedAt b \<le> receivedAt a"
  by (auto simp: byReceivedAt_def)

lemma set_insert_sorted: "set (insert_sorted cmp x ys) = insert x (set ys)"
  by (induction ys) auto

lemma sorted_insert_sorted:
  "sorted_wrt (\<lambda>a b. receivedAt b \<le> receivedAt a) ys
   \<Longrightarrow> sorted_wrt (\<lambda>a b. receivedAt b \<le> receivedAt a) (insert_sorted byReceivedAt x ys)"
proof (induction ys)
  case Nil
  then show ?case by simp
next
  case (Cons y ys)
  show ?case
  proof (cases "byReceivedAt x y \<le> 0")
    case True
    then have "receivedAt y \<le> receivedAt x" by (simp add: byReceivedAt_le0)
    with Cons.prems True show ?thesis by (auto intro: order_trans)
  next
    case False
    then have "receivedAt x \<le> receivedAt y" by (simp add: byReceivedAt_le0)
    with Cons False show ?thesis by (auto simp: set_insert_sorted)
  qed
qed

lemma sorted_array_sort: "sorted_wrt (\<lambda>a b. receivedAt b \<le> receivedAt a) (array_sort byReceivedAt xs)"
  by (induction xs) (simp_all add: array_sort_Cons sorted_insert_sorted, simp add: array_sort_def)



lemma sorted_take_drop:
  assumes "sorted_wrt (\<lambda>a b. receivedAt b \<le> receivedAt a) xs"
      and "e \<in> set (take n xs)" and "e' \<in> set (drop n xs)"
  shows "receivedAt e' \<le> receivedAt e"
proof -
  from assms(1) have "sorted_wrt (\<lambda>a b. receivedAt b \<le> receivedAt a) (take n xs @ drop n xs)" by simp
  with assms(2,3) show ?thesis unfolding sorted_wrt_append by blast
qed

subsection \<open>The heap of arrays\<close>

lemma wf_lookup: "wf_store st \<Longrightarrow> map_of (recentByHook st) h = Some a \<Longrightarrow> a < length (arrays st)"
  by (auto simp: wf_store_def list_all_iff dest!: map_of_SomeD)

lemma wf_inj:
  assumes "wf_store st" "map_of (recentByHook st) h = Some a" "map_of (recentByHook st) h' = Some a"
  shows "h = h'"
proof -
  from assms have "(h, a) \<in> set (recentByHook st)" "(h', a) \<in> set (recentByHook st)"
    by (auto dest: map_of_SomeD)
  moreover from assms(1) have "inj_on snd (set (recentByHook st))"
    by (simp add: wf_store_def distinct_map)
  ultimately show ?thesis by (fastforce simp: inj_on_def)
qed

lemma hydrates_refl: "wf_store st \<Longrightarrow> hydrates env st st"
  by (simp add: hydrates_def)

lemma hydrates_trans: "hydrates env st st1 \<Longrightarrow> hydrates env st1 st2 \<Longrightarrow> hydrates env st st2"
  unfolding hydrates_def by (auto intro: order_trans)

lemma hydrates_local: "hydrates env st st' \<Longrightarrow> local_ref st a \<Longrightarrow> local_ref st' a"
  by (simp add: hydrates_def)

lemma hydrates_wf: "hydrates env st st' \<Longrightarrow> wf_store st'"
  by (simp add: hydrates_def)

lemma hook_events_loaded:
  "map_of (recentByHook st) h = Some a \<Longrightarrow> hook_events env st h = get_array st a"
  by (simp add: hook_events_def)

lemma new_array_props:
  assumes "wf_store st" "new_array xs st = (a, st1)"
  shows "hydrates env st st1" and "a = length (arrays st)" and "get_array st1 a = xs"
    and "recentByHook st1 = recentByHook st" and "local_ref st1 a"
    and "\<And>b. b < length (arrays st) \<Longrightarrow> get_array st1 b = get_array st b"
proof -
  from assms(2) have a: "a = length (arrays st)" and st1: "st1 = st\<lparr>arrays := arrays st @ [xs]\<rparr>"
    by (auto simp: new_array_def)
  show "a = length (arrays st)" by (rule a)
  show "get_array st1 a = xs" by (simp add: a st1 get_array_def)
  show "recentByHook st1 = recentByHook st" by (simp add: st1)
  show "local_ref st1 a"
    using assms(1) by (auto simp: a st1 local_ref_def wf_store_def list_all_iff)
  show "\<And>b. b < length (arrays st) \<Longrightarrow> get_array st1 b = get_array st b"
    by (simp add: st1 get_array_def nth_append)
  have wf1: "wf_store st1"
    using assms(1) by (auto simp: st1 wf_store_def list_all_iff)
  have he: "hook_events env st1 h = hook_events env st h" for h
  proof (cases "map_of (recentByHook st) h")
    case None
    then show ?thesis by (simp add: hook_events_def st1)
  next
    case (Some b)
    with wf_lookup [OF assms(1) Some] show ?thesis
      by (simp add: hook_events_def st1 get_array_def nth_append)
  qed
  show "hydrates env st st1"
    unfolding hydrates_def using wf1 he by (auto simp: st1 local_ref_def)
qed

lemma ensureHookLoaded_props:
  assumes "wf_store st" "ensureHookLoaded env h st = (a, st1)"
  shows "hydrates env st st1" and "map_of (recentByHook st1) h = Some a"
    and "get_array st1 a = hook_events env st h"
    and "\<And>b. b < length (arrays st) \<Longrightarrow> get_array st1 b = get_array st b"
proof -
  have "hydrates env st st1 \<and> map_of (recentByHook st1) h = Some a \<and> get_array st1 a = hook_events env st h
      \<and> (\<forall>b < length (arrays st). get_array st1 b = get_array st b)"
  proof (cases "map_of (recentByHook st) h")
    case (Some b)
    with assms show ?thesis
      by (auto simp: ensureHookLoaded_def hydrates_refl hook_events_def)
  next
    case None
    let ?xs = "loadHook (MAX_RECENT_PER_HOOK env) (JSON_parse env) (\<lambda>e. True) (files st) h"
    let ?n = "length (arrays st)"
    from None assms(2) have a: "a = ?n"
      and st1: "st1 = st\<lparr>arrays := arrays st @ [?xs], recentByHook := recentByHook st @ [(h, ?n)]\<rparr>"
      by (auto simp: ensureHookLoaded_def new_array_def)
    from None have notin: "h \<notin> fst ` set (recentByHook st)" by (simp add: map_of_eq_None_iff)
    from assms(1) have bound: "\<forall>p \<in> set (recentByHook st). snd p < ?n"
      by (simp add: wf_store_def list_all_iff)
    then have fresh: "?n \<notin> snd ` set (recentByHook st)" by auto
    have wf1: "wf_store st1"
      using assms(1) notin fresh bound by (auto simp: st1 wf_store_def list_all_iff)
    have look: "map_of (recentByHook st @ [(h, ?n)]) h' =
        (case map_of (recentByHook st) h' of Some b \<Rightarrow> Some b | None \<Rightarrow> if h' = h then Some ?n else None)" for h'
      by (simp add: map_add_def split: option.splits)
    have he: "hook_events env st1 h' = hook_events env st h'" for h'
    proof (cases "map_of (recentByHook st) h'")
      case (Some b)
      with wf_lookup [OF assms(1) Some] show ?thesis
        by (simp add: hook_events_def get_array_def st1 map_add_def nth_append)
    next
      case N: None
      show ?thesis
      proof (cases "h' = h")
        case True
        with N show ?thesis
          by (simp add: hook_events_def get_array_def st1 map_add_def)
      next
        case False
        with N show ?thesis
          by (simp add: hook_events_def st1 map_add_def)
      qed
    qed
    have "hydrates env st st1"
      unfolding hydrates_def using wf1 he by (auto simp: st1 map_add_def local_ref_def)
    moreover have "\<forall>b < length (arrays st). get_array st1 b = get_array st b"
      by (simp add: st1 get_array_def nth_append)
    moreover have "map_of (recentByHook st1) h = Some a" using None a by (simp add: st1 map_add_def)
    moreover have "get_array st1 a = hook_events env st h"
      using None by (simp add: a st1 get_array_def hook_events_def)
    ultimately show ?thesis by blast
  qed
  then show "hydrates env st st1" and "map_of (recentByHook st1) h = Some a"
    and "get_array st1 a = hook_events env st h"
    and "\<And>b. b < length (arrays st) \<Longrightarrow> get_array st1 b = get_array st b" by blast+
qed

lemma hydrates_hook_events: "hydrates env st st' \<Longrightarrow> hook_events env st' = hook_events env st"
  by (rule ext) (simp add: hydrates_def)

lemma hydrates_listHooks: "hydrates env st st' \<Longrightarrow> listHooksOnDisk env st' = listHooksOnDisk env st"
  by (simp add: hydrates_def listHooksOnDisk_def)


lemma combine_props:
  assumes "wf_store st" "combine env hooks combined st = (c, st')"
  shows "c = combined @ concat (map (hook_events env st) hooks) \<and> hydrates env st st'"
  using assms
proof (induction hooks arbitrary: combined st)
  case Nil
  then show ?case by (simp add: hydrates_refl)
next
  case (Cons h hooks)
  obtain a st1 where e: "ensureHookLoaded env h st = (a, st1)" by (cases "ensureHookLoaded env h st")
  note p = ensureHookLoaded_props [OF Cons.prems(1) e]
  from Cons.prems(2) e have "combine env hooks (combined @ get_array st1 a) st1 = (c, st')" by simp
  from Cons.IH [OF hydrates_wf [OF p(1)] this]
  have "c = (combined @ get_array st1 a) @ concat (map (hook_events env st1) hooks)" and h2: "hydrates env st1 st'"
    by simp_all
  with p show ?case
    by (auto simp: hydrates_hook_events [OF p(1)] intro: hydrates_trans)
qed

subsection \<open>\<open>storeEvent\<close>\<close>

text \<open>An ingest puts the new event in front of the events of the hook and, over the cap,
  removes the last of the array.\<close>

lemma storeEvent_cache:
  assumes "wf_store st"
  shows "cache_of (snd (storeEvent env uuid now hook p m st)) hook =
     Some (let arr = \<lparr>e_id = uuid, e_hook = hook, receivedAt = now, meta = m, payload = p\<rparr> # hook_events env st hook
           in if length arr > MAX_RECENT_PER_HOOK env then butlast arr else arr)"
proof -
  obtain a st1 where e: "ensureHookLoaded env hook st = (a, st1)" by (cases "ensureHookLoaded env hook st")
  note q = ensureHookLoaded_props [OF assms e]
  from wf_lookup [OF hydrates_wf [OF q(1)] q(2)] have a: "a < length (arrays st1)" .
  with e q(2,3) show ?thesis
    by (simp add: storeEvent_def cache_of_def Let_def set_array_def get_array_def)
qed

lemma storeEvent_bound:
  assumes "wf_store st" "0 < MAX_RECENT_PER_HOOK env" "length (hook_events env st hook) \<le> MAX_RECENT_PER_HOOK env"
  shows "\<exists>xs. cache_of (snd (storeEvent env uuid now hook p m st)) hook = Some xs
     \<and> length xs \<le> MAX_RECENT_PER_HOOK env \<and> e_id (hd xs) = uuid"
  using assms(2,3) unfolding storeEvent_cache [OF assms(1)]
  by (cases "hook_events env st hook" rule: rev_cases) (auto simp: Let_def)

text \<open>
  Claim C1. After any sequence of ingests, a first lazy load from disk included, the cache
  of a hook is to hold at most \<open>MAX_RECENT_PER_HOOK\<close> events with the most recent first,
  and an insertion over the cap is to remove the oldest event. Take a cap of two and a log
  of two events of the hook \<open>tracks\<close>. The first access loads the two events in file
  order, the older first. The ingest of a third event puts it in front and removes the
  last of the array, the newer of the two that were loaded: the cache holds the third and
  the first event.
\<close>

theorem ingest_after_hydration_evicts_newest:
  "ensureHookLoaded env2 ''tracks'' store2 = (0, store2_loaded)
   \<and> cache_of store2_loaded ''tracks'' = Some [ev ''tracks'' ''1'', ev ''tracks'' ''2'']
   \<and> receivedAt (ev ''tracks'' ''1'') < receivedAt (ev ''tracks'' ''2'')
   \<and> cache_of (snd (storeEvent env2 ''3'' ''2026-01-03'' ''tracks'' JNull JNull store2)) ''tracks''
       = Some [ev ''tracks'' ''3'', ev ''tracks'' ''1'']"
proof -
  have l: "ensureHookLoaded env2 ''tracks'' store2 = (0, store2_loaded)" by code_simp
  have c: "cache_of store2_loaded ''tracks'' = Some [ev ''tracks'' ''1'', ev ''tracks'' ''2'']" by code_simp
  have o: "receivedAt (ev ''tracks'' ''1'') < receivedAt (ev ''tracks'' ''2'')" by code_simp
  have w: "wf_store store2" by code_simp
  have v: "Some (let arr = \<lparr>e_id = ''3'', e_hook = ''tracks'', receivedAt = ''2026-01-03'', meta = JNull, payload = JNull\<rparr>
                   # hook_events env2 store2 ''tracks''
                 in if length arr > MAX_RECENT_PER_HOOK env2 then butlast arr else arr)
      = Some [ev ''tracks'' ''3'', ev ''tracks'' ''1'']"
    by code_simp
  have "cache_of (snd (storeEvent env2 ''3'' ''2026-01-03'' ''tracks'' JNull JNull store2)) ''tracks''
       = Some [ev ''tracks'' ''3'', ev ''tracks'' ''1'']"
    using storeEvent_cache [OF w, of env2 "''3''" "''2026-01-03''" "''tracks''" JNull JNull] v
    by (rule trans)
  with l c o show ?thesis by (simp only: simp_thms)
qed

text \<open>The cache is not the two most recent events, the third and the second.\<close>

theorem ingest_after_hydration_evicts_newest_witness:
  "cache_of (snd (storeEvent env2 ''3'' ''2026-01-03'' ''tracks'' JNull JNull store2)) ''tracks''
     \<noteq> Some [ev ''tracks'' ''3'', ev ''tracks'' ''2'']"
proof -
  have d: "Some [ev ''tracks'' ''3'', ev ''tracks'' ''1''] \<noteq> Some [ev ''tracks'' ''3'', ev ''tracks'' ''2'']"
    by code_simp
  from ingest_after_hydration_evicts_newest
  have e: "cache_of (snd (storeEvent env2 ''3'' ''2026-01-03'' ''tracks'' JNull JNull store2)) ''tracks''
       = Some [ev ''tracks'' ''3'', ev ''tracks'' ''1'']"
    by blast
  show ?thesis unfolding e by (rule d)
qed

subsection \<open>The per-channel query\<close>

lemma trim_Nil: "trim [] = []"
  by (simp add: trim_def)

lemma filter_events_Inr:
  "filter_events g xs = Inr m \<Longrightarrow> m = filter (\<lambda>e. g e = Inr True) xs"
  by (induction xs arbitrary: m) (auto split: sum.splits if_splits)

lemma eventMatches_no_filter:
  assumes "\<not> has_filter q value"
  shows "eventMatches inh e q field value = Inr True"
proof -
  from assms have q: "q = []" and v: "value = [] \<or> trim value = []" by (auto simp: has_filter_def)
  from v have "eventMatches inh e q field value = Inr (advancedMatches e q)"
    by (auto simp: eventMatches_def)
  with q show ?thesis by (simp add: advancedMatches_def normalizeQ_def trim_Nil)
qed

lemma apply_filter_Inr:
  assumes "apply_filter env q field value xs = Inr m"
  shows "m = filter (\<lambda>e. eventMatches (inherited env) e q field value = Inr True) xs"
proof (cases "has_filter q value")
  case True
  with assms show ?thesis by (simp add: apply_filter_def filter_events_Inr)
next
  case False
  with assms show ?thesis by (simp add: apply_filter_def eventMatches_no_filter)
qed

lemma ensureHookLoaded_events:
  "ensureHookLoaded env h st = (a, st1) \<Longrightarrow> get_array st1 a = hook_events env st h"
  by (auto simp: ensureHookLoaded_def hook_events_def new_array_def get_array_def split: option.splits)

text \<open>
  For an allowed hook, the query of one channel answers with the number of all events of
  the cache that the filter keeps, whatever the limit, and with these events in the order
  of the cache: all of them when the limit is \<open>0\<close>, the first \<open>min(5000, limit)\<close>
  otherwise. When the filter throws on an event of the cache, the exception is the answer.
\<close>

lemma api_hook_answer:
  assumes "isHookAllowed env (trim hook_param)"
  shows "fst (api_hook env hook_param q field value lp st) =
      (case apply_filter env (normalizeQ q) field value (hook_events env st (trim hook_param)) of
         Inl err \<Rightarrow> Inl err
       | Inr matching \<Rightarrow>
           Inr (length matching,
                if parseLimit lp = 0 then matching else take (min 5000 (parseLimit lp)) matching))
    \<and> (\<forall>matching. apply_filter env (normalizeQ q) field value (hook_events env st (trim hook_param)) = Inr matching \<longrightarrow>
          matching = filter (\<lambda>e. eventMatches (inherited env) e (normalizeQ q) field value = Inr True)
                       (hook_events env st (trim hook_param)))"
proof
  obtain a st1 where e: "ensureHookLoaded env (trim hook_param) st = (a, st1)"
    by (cases "ensureHookLoaded env (trim hook_param) st")
  from ensureHookLoaded_events [OF e] assms e
  show "fst (api_hook env hook_param q field value lp st) =
      (case apply_filter env (normalizeQ q) field value (hook_events env st (trim hook_param)) of
         Inl err \<Rightarrow> Inl err
       | Inr matching \<Rightarrow>
           Inr (length matching,
                if parseLimit lp = 0 then matching else take (min 5000 (parseLimit lp)) matching))"
    by (simp add: api_hook_def Let_def page_def split: sum.splits)
next
  show "\<forall>matching. apply_filter env (normalizeQ q) field value (hook_events env st (trim hook_param)) = Inr matching \<longrightarrow>
          matching = filter (\<lambda>e. eventMatches (inherited env) e (normalizeQ q) field value = Inr True)
                       (hook_events env st (trim hook_param))"
    by (auto dest: apply_filter_Inr)
qed

text \<open>The loaded cache of two events, both of the hook \<open>tracks\<close>, with the limits \<open>1\<close>
  and none.\<close>

lemma api_hook_answer_example:
  "isHookAllowed env2 (trim ''tracks'')
   \<and> fst (api_hook env2 ''tracks'' [] ''hook'' ''tracks'' (Finite 1) store2_loaded)
       = Inr (2, [ev ''tracks'' ''1''])
   \<and> fst (api_hook env2 ''tracks'' [] ''hook'' ''tracks'' Absent store2_loaded)
       = Inr (2, [ev ''tracks'' ''1'', ev ''tracks'' ''2''])"
proof -
  have a: "isHookAllowed env2 (trim ''tracks'')" by code_simp
  have s: "(case apply_filter env2 (normalizeQ []) ''hook'' ''tracks'' (hook_events env2 store2_loaded (trim ''tracks'')) of
         Inl err \<Rightarrow> Inl err
       | Inr matching \<Rightarrow>
           Inr (length matching,
                if parseLimit (Finite 1) = 0 then matching else take (min 5000 (parseLimit (Finite 1))) matching))
       = Inr (2, [ev ''tracks'' ''1''])"
    by code_simp
  have s': "(case apply_filter env2 (normalizeQ []) ''hook'' ''tracks'' (hook_events env2 store2_loaded (trim ''tracks'')) of
         Inl err \<Rightarrow> Inl err
       | Inr matching \<Rightarrow>
           Inr (length matching,
                if parseLimit Absent = 0 then matching else take (min 5000 (parseLimit Absent)) matching))
       = Inr (2, [ev ''tracks'' ''1'', ev ''tracks'' ''2''])"
    by code_simp
  from api_hook_answer [OF a, of "[]" "''hook''" "''tracks''" "Finite 1" store2_loaded]
  have "fst (api_hook env2 ''tracks'' [] ''hook'' ''tracks'' (Finite 1) store2_loaded) =
      (case apply_filter env2 (normalizeQ []) ''hook'' ''tracks'' (hook_events env2 store2_loaded (trim ''tracks'')) of
         Inl err \<Rightarrow> Inl err
       | Inr matching \<Rightarrow>
           Inr (length matching,
                if parseLimit (Finite 1) = 0 then matching else take (min 5000 (parseLimit (Finite 1))) matching))"
    by (rule conjunct1)
  with s have 1: "fst (api_hook env2 ''tracks'' [] ''hook'' ''tracks'' (Finite 1) store2_loaded)
       = Inr (2, [ev ''tracks'' ''1''])"
    by (simp only:)
  from api_hook_answer [OF a, of "[]" "''hook''" "''tracks''" Absent store2_loaded]
  have "fst (api_hook env2 ''tracks'' [] ''hook'' ''tracks'' Absent store2_loaded) =
      (case apply_filter env2 (normalizeQ []) ''hook'' ''tracks'' (hook_events env2 store2_loaded (trim ''tracks'')) of
         Inl err \<Rightarrow> Inl err
       | Inr matching \<Rightarrow>
           Inr (length matching,
                if parseLimit Absent = 0 then matching else take (min 5000 (parseLimit Absent)) matching))"
    by (rule conjunct1)
  with s' have 2: "fst (api_hook env2 ''tracks'' [] ''hook'' ''tracks'' Absent store2_loaded)
       = Inr (2, [ev ''tracks'' ''1'', ev ''tracks'' ''2''])"
    by (simp only:)
  from a 1 2 show ?thesis by (simp only: simp_thms)
qed

text \<open>
  Claim C9. The count of a per-channel query is to be the number of the events of the
  channel's cache that match the filter, and the items are to be the matches. With the
  cache of \<open>store_mixed\<close> and the selected field \<open>payload.Vehicle.Callsign\<close> with value
  \<open>51\<close>, one event of the cache matches. The query does not answer with the count \<open>1\<close>
  and that event: the filter throws a \<open>TypeError\<close> on the other event, whose payload has
  no \<open>Vehicle\<close>, and the exception is the answer of the request.
\<close>

theorem per_channel_query_unresolved_path_fails:
  "hook_events env_mixed store_mixed ''tracks'' = [ev_vehicle, ev_driver]
   \<and> eventMatches (inherited env_mixed) ev_vehicle [] ''payload.Vehicle.Callsign'' ''51'' = Inr True
   \<and> eventMatches (inherited env_mixed) ev_driver [] ''payload.Vehicle.Callsign'' ''51'' = Inl TypeError
   \<and> fst (api_hook env_mixed ''tracks'' [] ''payload.Vehicle.Callsign'' ''51'' Absent store_mixed)
       = Inl TypeError
   \<and> fst (api_hook env_mixed ''tracks'' [] ''payload.Vehicle.Callsign'' ''51'' (Finite 1) store_mixed)
       = Inl TypeError"
  by code_simp

text \<open>The answer is not the count of the matches with the matching event.\<close>

theorem per_channel_query_unresolved_path_fails_witness:
  "fst (api_hook env_mixed ''tracks'' [] ''payload.Vehicle.Callsign'' ''51'' Absent store_mixed)
     \<noteq> Inr (1, [ev_vehicle])"
  using per_channel_query_unresolved_path_fails by simp

subsection \<open>The aggregation over all hooks\<close>

lemma api_events_char:
  assumes "wf_store st"
  shows "\<exists>st'. hydrates env st st' \<and>
     api_events env q field value lp st =
       ((case apply_filter env (normalizeQ q) field value (scope_events env st ''*'') of
           Inl err \<Rightarrow> Inl err
         | Inr filtered \<Rightarrow> Inr (length filtered, page (parseLimit lp) (array_sort byReceivedAt filtered))), st')"
proof -
  obtain c st' where cb: "combine env (listHooksOnDisk env st) [] st = (c, st')"
    by (cases "combine env (listHooksOnDisk env st) [] st")
  from combine_props [OF assms cb] have c: "c = scope_events env st ''*''" and h: "hydrates env st st'"
    by (simp_all add: scope_events_def)
  have "api_events env q field value lp st =
       ((case apply_filter env (normalizeQ q) field value (scope_events env st ''*'') of
           Inl err \<Rightarrow> Inl err
         | Inr filtered \<Rightarrow> Inr (length filtered, page (parseLimit lp) (array_sort byReceivedAt filtered))), st')"
    using cb c by (simp add: api_events_def Let_def length_array_sort split: sum.splits)
  with h show ?thesis by blast
qed




subsection \<open>The exports\<close>

lemma local_ref_bound: "local_ref st a \<Longrightarrow> a < length (arrays st)"
  by (simp add: local_ref_def)

lemma concat_hooks_props:
  assumes "wf_store st" "local_ref st events" "concat_hooks env hooks events st = (e', st')"
  shows "get_array st' e' = get_array st events @ concat (map (hook_events env st) hooks)
     \<and> hydrates env st st' \<and> local_ref st' e'"
  using assms
proof (induction hooks arbitrary: events st)
  case Nil
  then show ?case by (simp add: hydrates_refl)
next
  case (Cons h hooks)
  obtain a st1 where e: "ensureHookLoaded env h st = (a, st1)" by (cases "ensureHookLoaded env h st")
  note p = ensureHookLoaded_props [OF Cons.prems(1) e]
  obtain ev1 st2 where n: "new_array (get_array st1 events @ get_array st1 a) st1 = (ev1, st2)"
    by (cases "new_array (get_array st1 events @ get_array st1 a) st1")
  note r = new_array_props [OF hydrates_wf [OF p(1)] n]
  from Cons.prems(3) e n have "concat_hooks env hooks ev1 st2 = (e', st')" by simp
  from Cons.IH [OF hydrates_wf [OF r(1)] r(5) this]
  have i: "get_array st' e' = get_array st2 ev1 @ concat (map (hook_events env st2) hooks)"
    and h3: "hydrates env st2 st'" and s: "local_ref st' e'" by simp_all
  have h12: "hydrates env st st2" using p(1) r(1) by (rule hydrates_trans)
  have "get_array st2 ev1 = get_array st events @ hook_events env st h"
    using r(3) p(3) p(4) [OF local_ref_bound [OF Cons.prems(2)]] by simp
  with i have "get_array st' e' = get_array st events @ concat (map (hook_events env st) (h # hooks))"
    by (simp add: hydrates_hook_events [OF h12])
  moreover have "hydrates env st st'" using h12 h3 by (rule hydrates_trans)
  ultimately show ?case using s by blast
qed

lemma set_array_local:
  assumes "wf_store st" "local_ref st a"
  shows "hydrates env st (set_array a xs st)" and "get_array (set_array a xs st) a = xs"
proof -
  from assms(2) have a: "a < length (arrays st)" and na: "a \<notin> snd ` set (recentByHook st)"
    by (simp_all add: local_ref_def)
  show "get_array (set_array a xs st) a = xs" using a by (simp add: set_array_def get_array_def)
  have he: "hook_events env (set_array a xs st) h = hook_events env st h" for h
  proof (cases "map_of (recentByHook st) h")
    case None
    then show ?thesis by (simp add: hook_events_def set_array_def)
  next
    case (Some b)
    then have "(h, b) \<in> set (recentByHook st)" by (rule map_of_SomeD)
    with na have "b \<noteq> a" by force
    with Some show ?thesis by (simp add: hook_events_def set_array_def get_array_def)
  qed
  show "hydrates env st (set_array a xs st)"
    unfolding hydrates_def using assms(1) he
    by (auto simp: set_array_def wf_store_def local_ref_def)
qed

lemma set_array_cache:
  assumes "wf_store st" "map_of (recentByHook st) h = Some a"
  shows "wf_store (set_array a xs st)" and "files (set_array a xs st) = files st"
    and "recentByHook (set_array a xs st) = recentByHook st"
    and "get_array (set_array a xs st) a = xs"
    and "\<And>h'. h' \<noteq> h \<Longrightarrow> hook_events env (set_array a xs st) h' = hook_events env st h'"
proof -
  from wf_lookup [OF assms] have a: "a < length (arrays st)" .
  show "wf_store (set_array a xs st)" using assms(1) by (simp add: set_array_def wf_store_def)
  show "files (set_array a xs st) = files st" by (simp add: set_array_def)
  show "recentByHook (set_array a xs st) = recentByHook st" by (simp add: set_array_def)
  show "get_array (set_array a xs st) a = xs" using a by (simp add: set_array_def get_array_def)
  show "hook_events env (set_array a xs st) h' = hook_events env st h'" if "h' \<noteq> h" for h'
  proof (cases "map_of (recentByHook st) h'")
    case None
    then show ?thesis by (simp add: hook_events_def set_array_def)
  next
    case (Some b)
    with wf_inj [OF assms(1) assms(2), of h'] that have "b \<noteq> a" by auto
    with Some show ?thesis by (simp add: hook_events_def set_array_def get_array_def)
  qed
qed

lemma cut_props:
  assumes "wf_store st3" "e2 < length (arrays st3)"
    and "(if length (get_array st3 e2) > m then new_array (take m (get_array st3 e2)) st3 else (e2, st3)) = (e3, st4)"
  shows "get_array st4 e3 = take m (get_array st3 e2)" and "hydrates env st3 st4"
    and "\<And>b. b < length (arrays st3) \<Longrightarrow> get_array st4 b = get_array st3 b"
    and "recentByHook st4 = recentByHook st3"
proof -
  have "get_array st4 e3 = take m (get_array st3 e2) \<and> hydrates env st3 st4
      \<and> (\<forall>b < length (arrays st3). get_array st4 b = get_array st3 b) \<and> recentByHook st4 = recentByHook st3"
  proof (cases "length (get_array st3 e2) > m")
    case True
    with assms(3) have n: "new_array (take m (get_array st3 e2)) st3 = (e3, st4)" by simp
    from new_array_props [OF assms(1) n] show ?thesis by blast
  next
    case False
    with assms(3) have "e3 = e2" "st4 = st3" by simp_all
    with False assms(1) show ?thesis by (simp add: hydrates_refl)
  qed
  then show "get_array st4 e3 = take m (get_array st3 e2)" and "hydrates env st3 st4"
    and "\<And>b. b < length (arrays st3) \<Longrightarrow> get_array st4 b = get_array st3 b"
    and "recentByHook st4 = recentByHook st3" by blast+
qed

lemma filter_sort_cut_error:
  assumes "apply_filter env q field value (get_array st events) = Inl err"
  shows "filter_sort_cut env q field value events st = (Inl err, st)"
  using assms by (auto simp: filter_sort_cut_def apply_filter_def split: if_splits sum.splits)

lemma filter_sort_cut_fresh:
  assumes "wf_store st" "events < length (arrays st)" "has_filter q value \<or> local_ref st events"
    and "apply_filter env q field value (get_array st events) = Inr matching"
    and "filter_sort_cut env q field value events st = (r, st')"
  shows "r = Inr (take (MAX_EXPORT env) (array_sort byReceivedAt matching))" and "hydrates env st st'"
proof -
  obtain e2 st2 where s2: "(if has_filter q value then new_array matching st else (events, st)) = (e2, st2)"
    by (cases "if has_filter q value then new_array matching st else (events, st)")
  have p2: "hydrates env st st2 \<and> local_ref st2 e2 \<and> get_array st2 e2 = matching"
  proof (cases "has_filter q value")
    case True
    with s2 have "new_array matching st = (e2, st2)" by simp
    from new_array_props [OF assms(1) this] show ?thesis by blast
  next
    case False
    with s2 assms(1,3,4) show ?thesis by (auto simp: hydrates_refl apply_filter_def)
  qed
  define st3 where "st3 = set_array e2 (array_sort byReceivedAt (get_array st2 e2)) st2"
  from p2 have wf2: "wf_store st2" by (blast intro: hydrates_wf)
  from p2 have sr2: "local_ref st2 e2" by blast
  have h3: "hydrates env st2 st3"
    unfolding st3_def using wf2 sr2 by (rule set_array_local(1))
  have g3: "get_array st3 e2 = array_sort byReceivedAt matching"
    using set_array_local(2) [OF wf2 sr2] p2 by (simp add: st3_def)
  obtain e3 st4 where c: "(if length (get_array st3 e2) > MAX_EXPORT env
        then new_array (take (MAX_EXPORT env) (get_array st3 e2)) st3 else (e2, st3)) = (e3, st4)"
    by (cases "if length (get_array st3 e2) > MAX_EXPORT env
        then new_array (take (MAX_EXPORT env) (get_array st3 e2)) st3 else (e2, st3)")
  have b3: "e2 < length (arrays st3)"
    using hydrates_local [OF h3] p2 by (simp add: local_ref_def)
  note cp = cut_props [OF hydrates_wf [OF h3] b3 c]
  have res: "filter_sort_cut env q field value events st = (Inr (get_array st4 e3), st4)"
  proof (cases "has_filter q value")
    case True
    with assms(4) have "filter_events (\<lambda>evt. eventMatches (inherited env) evt q field value) (get_array st events) = Inr matching"
      by (simp add: apply_filter_def)
    with True s2 c show ?thesis by (auto simp: filter_sort_cut_def st3_def Let_def split: if_splits)
  next
    case False
    with s2 c show ?thesis by (auto simp: filter_sort_cut_def st3_def Let_def split: if_splits)
  qed
  with assms(5) cp(1) g3 show "r = Inr (take (MAX_EXPORT env) (array_sort byReceivedAt matching))" by simp
  from res assms(5) have "st' = st4" by simp
  with p2 h3 cp(2) [of env] show "hydrates env st st'" by (auto intro: hydrates_trans)
qed

lemma filter_sort_cut_cache:
  assumes "wf_store st" "map_of (recentByHook st) h = Some events" "\<not> has_filter q value"
    and "filter_sort_cut env q field value events st = (r, st')"
  shows "r = Inr (take (MAX_EXPORT env) (array_sort byReceivedAt (get_array st events)))"
    and "wf_store st'" and "files st' = files st"
    and "cache_of st' h = Some (array_sort byReceivedAt (get_array st events))"
    and "\<And>h'. h' \<noteq> h \<Longrightarrow> hook_events env st' h' = hook_events env st h'"
proof -
  define st3 where "st3 = set_array events (array_sort byReceivedAt (get_array st events)) st"
  note sc = set_array_cache [OF assms(1,2), where xs = "array_sort byReceivedAt (get_array st events)", folded st3_def]
  obtain e3 st4 where c: "(if length (get_array st3 events) > MAX_EXPORT env
        then new_array (take (MAX_EXPORT env) (get_array st3 events)) st3 else (events, st3)) = (e3, st4)"
    by (cases "if length (get_array st3 events) > MAX_EXPORT env
        then new_array (take (MAX_EXPORT env) (get_array st3 events)) st3 else (events, st3)")
  have b3: "events < length (arrays st3)"
    using wf_lookup [OF assms(1,2)] by (simp add: st3_def set_array_def)
  note cp = cut_props [OF sc(1) b3 c]
  have res: "filter_sort_cut env q field value events st = (Inr (get_array st4 e3), st4)"
    using assms(3) c by (auto simp: filter_sort_cut_def st3_def Let_def split: if_splits)
  with assms(4) have r: "r = Inr (get_array st4 e3)" and st': "st' = st4" by auto
  show "r = Inr (take (MAX_EXPORT env) (array_sort byReceivedAt (get_array st events)))"
    using r cp(1) sc(4) by simp
  show "wf_store st'" using st' hydrates_wf [OF cp(2)] by simp
  show "files st' = files st" using st' cp(2) [of env] sc(2) by (simp add: hydrates_def)
  show "cache_of st' h = Some (array_sort byReceivedAt (get_array st events))"
    using st' cp(3) [OF b3] cp(4) sc(3,4) assms(2) by (simp add: cache_of_def)
  show "hook_events env st' h' = hook_events env st h'" if "h' \<noteq> h" for h'
    using st' hydrates_hook_events [OF cp(2), of env] sc(5) [OF that] by simp
qed

lemma resolve_scope_props:
  assumes "wf_store st" "resolve_scope env scope st = (r, st1)"
  shows "hydrates env st st1"
    and "scope \<noteq> ''*'' \<Longrightarrow> \<not> isHookAllowed env scope \<Longrightarrow> r = Inl NotFound"
    and "scope = ''*'' \<Longrightarrow> \<exists>e. r = Inr e \<and> local_ref st1 e \<and> get_array st1 e = scope_events env st scope"
    and "scope \<noteq> ''*'' \<Longrightarrow> isHookAllowed env scope \<Longrightarrow>
           \<exists>e. r = Inr e \<and> map_of (recentByHook st1) scope = Some e \<and> get_array st1 e = scope_events env st scope"
proof -
  obtain e0 st0 where n: "new_array [] st = (e0, st0)" by (cases "new_array [] st")
  note p0 = new_array_props [OF assms(1) n]
  have wf0: "wf_store st0" using p0(1) by (rule hydrates_wf)
  have "hydrates env st st1
    \<and> (scope \<noteq> ''*'' \<longrightarrow> \<not> isHookAllowed env scope \<longrightarrow> r = Inl NotFound)
    \<and> (scope = ''*'' \<longrightarrow> (\<exists>e. r = Inr e \<and> local_ref st1 e \<and> get_array st1 e = scope_events env st scope))
    \<and> (scope \<noteq> ''*'' \<longrightarrow> isHookAllowed env scope \<longrightarrow>
           (\<exists>e. r = Inr e \<and> map_of (recentByHook st1) scope = Some e \<and> get_array st1 e = scope_events env st scope))"
  proof (cases "scope = ''*''")
    case True
    obtain e1 s1 where c: "concat_hooks env (listHooksOnDisk env st0) e0 st0 = (e1, s1)"
      by (cases "concat_hooks env (listHooksOnDisk env st0) e0 st0")
    from concat_hooks_props [OF wf0 p0(5) c] p0(3)
    have g: "get_array s1 e1 = concat (map (hook_events env st0) (listHooksOnDisk env st0))"
      and h: "hydrates env st0 s1" and s: "local_ref s1 e1" by simp_all
    from assms(2) n c True have "r = Inr e1" "st1 = s1" by (simp_all add: resolve_scope_def)
    with g h s True p0(1) show ?thesis
      by (auto simp: scope_events_def hydrates_hook_events [OF p0(1)] hydrates_listHooks [OF p0(1)]
               intro: hydrates_trans)
  next
    case False
    show ?thesis
    proof (cases "isHookAllowed env scope")
      case no: False
      with assms(2) n False have "r = Inl NotFound" "st1 = st0" by (simp_all add: resolve_scope_def)
      with p0(1) False no show ?thesis by simp
    next
      case True
      obtain e1 s1 where c: "ensureHookLoaded env scope st0 = (e1, s1)"
        by (cases "ensureHookLoaded env scope st0")
      note p = ensureHookLoaded_props [OF wf0 c]
      from assms(2) n c True False have "r = Inr e1" "st1 = s1" by (simp_all add: resolve_scope_def)
      with p p0(1) True False show ?thesis
        by (auto simp: scope_events_def hydrates_hook_events [OF p0(1)] intro: hydrates_trans)
    qed
  qed
  then show "hydrates env st st1"
    and "scope \<noteq> ''*'' \<Longrightarrow> \<not> isHookAllowed env scope \<Longrightarrow> r = Inl NotFound"
    and "scope = ''*'' \<Longrightarrow> \<exists>e. r = Inr e \<and> local_ref st1 e \<and> get_array st1 e = scope_events env st scope"
    and "scope \<noteq> ''*'' \<Longrightarrow> isHookAllowed env scope \<Longrightarrow>
           \<exists>e. r = Inr e \<and> map_of (recentByHook st1) scope = Some e \<and> get_array st1 e = scope_events env st scope"
    by blast+
qed

lemma ndjson_body_lines:
  "ndjson_body events = concat (map (\<lambda>e. stringify (event_json e) @ [newline]) events)"
proof -
  have "xs \<noteq> [] \<Longrightarrow> join [newline] xs @ [newline] = concat (map (\<lambda>x. x @ [newline]) xs)" for xs :: "string list"
    by (induction "[newline]" xs rule: join.induct) simp_all
  from this [of "map (\<lambda>e. stringify (event_json e)) events"] show ?thesis
    by (cases events) (simp_all add: ndjson_body_def comp_def)
qed

lemma export_events_char:
  assumes "wf_store st"
    and "export_scope hook_param = ''*'' \<or> isHookAllowed env (export_scope hook_param)"
    and "apply_filter env (normalizeQ q) field value (scope_events env st (export_scope hook_param)) = Inr matching"
  shows "fst (export_events env hook_param q field value st)
      = Inr (take (MAX_EXPORT env) (array_sort byReceivedAt matching))"
proof -
  let ?scope = "export_scope hook_param"
  obtain r st1 where rs: "resolve_scope env ?scope st = (r, st1)" by (cases "resolve_scope env ?scope st")
  note p = resolve_scope_props [OF assms(1) rs]
  have wf1: "wf_store st1" using p(1) by (rule hydrates_wf)
  show ?thesis
  proof (cases "?scope = ''*''")
    case True
    from p(3) [OF True] obtain e where e: "r = Inr e" "local_ref st1 e" "get_array st1 e = scope_events env st ?scope"
      by blast
    obtain r2 st2 where f: "filter_sort_cut env (normalizeQ q) field value e st1 = (r2, st2)"
      by (cases "filter_sort_cut env (normalizeQ q) field value e st1")
    from filter_sort_cut_fresh(1) [OF wf1 local_ref_bound [OF e(2)] _ _ f, of matching] e assms(3)
    have "r2 = Inr (take (MAX_EXPORT env) (array_sort byReceivedAt matching))" by simp
    with rs e f show ?thesis by (simp add: export_events_def)
  next
    case False
    with assms(2) have al: "isHookAllowed env ?scope" by simp
    from p(4) [OF False al] obtain e where e: "r = Inr e" "map_of (recentByHook st1) ?scope = Some e"
        "get_array st1 e = scope_events env st ?scope"
      by blast
    obtain r2 st2 where f: "filter_sort_cut env (normalizeQ q) field value e st1 = (r2, st2)"
      by (cases "filter_sort_cut env (normalizeQ q) field value e st1")
    have "r2 = Inr (take (MAX_EXPORT env) (array_sort byReceivedAt matching))"
    proof (cases "has_filter (normalizeQ q) value")
      case True
      from filter_sort_cut_fresh(1) [OF wf1 wf_lookup [OF wf1 e(2)] _ _ f, of matching] True e assms(3)
      show ?thesis by simp
    next
      case nf: False
      with assms(3) e(3) have "matching = get_array st1 e" by (simp add: apply_filter_def)
      with filter_sort_cut_cache(1) [OF wf1 e(2) nf f] show ?thesis by simp
    qed
    with rs e f show ?thesis by (simp add: export_events_def)
  qed
qed

text \<open>
  For a scope that is \<open>*\<close> or an allowed hook and a filter that throws on no event of the
  scope, the line-delimited export takes the events of the scope that match the filter,
  sorts them by \<open>receivedAt\<close> descending, keeps the first \<open>MAX_EXPORT\<close> of the sorted
  events, so that no event left out is more recent than one that is kept, and writes each
  event as its JSON text and a line feed; the body is empty when no event matches.
\<close>

lemma export_ndjson_answer:
  assumes "wf_store st"
    and "export_scope hook_param = ''*'' \<or> isHookAllowed env (export_scope hook_param)"
    and "apply_filter env (normalizeQ q) field value (scope_events env st (export_scope hook_param)) = Inr matching"
  shows "fst (export_ndjson env hook_param q field value st)
           = Inr (concat (map (\<lambda>e. stringify (event_json e) @ [newline])
                    (take (MAX_EXPORT env) (array_sort byReceivedAt matching))))
     \<and> matching = filter (\<lambda>e. eventMatches (inherited env) e (normalizeQ q) field value = Inr True)
                     (scope_events env st (export_scope hook_param))
     \<and> mset (array_sort byReceivedAt matching) = mset matching
     \<and> sorted_wrt (\<lambda>a b. receivedAt b \<le> receivedAt a) (array_sort byReceivedAt matching)
     \<and> (\<forall>e \<in> set (take (MAX_EXPORT env) (array_sort byReceivedAt matching)).
          \<forall>e' \<in> set (drop (MAX_EXPORT env) (array_sort byReceivedAt matching)).
            receivedAt e' \<le> receivedAt e)
     \<and> (matching = [] \<longrightarrow> fst (export_ndjson env hook_param q field value st) = Inr [])"
proof -
  from export_events_char [OF assms]
  have ev: "fst (export_events env hook_param q field value st)
      = Inr (take (MAX_EXPORT env) (array_sort byReceivedAt matching))" .
  have body: "fst (export_ndjson env hook_param q field value st)
           = Inr (concat (map (\<lambda>e. stringify (event_json e) @ [newline])
                    (take (MAX_EXPORT env) (array_sort byReceivedAt matching))))"
    using ev by (cases "export_events env hook_param q field value st")
      (simp add: export_ndjson_def ndjson_body_lines)
  have empty: "fst (export_ndjson env hook_param q field value st) = Inr []" if "matching = []"
    using body that by (simp add: array_sort_def)
  have recent: "\<forall>e \<in> set (take (MAX_EXPORT env) (array_sort byReceivedAt matching)).
          \<forall>e' \<in> set (drop (MAX_EXPORT env) (array_sort byReceivedAt matching)).
            receivedAt e' \<le> receivedAt e"
    using sorted_take_drop [OF sorted_array_sort] by blast
  from body empty recent apply_filter_Inr [OF assms(3)] show ?thesis
    by (simp add: mset_array_sort sorted_array_sort)
qed

text \<open>The export of the hook \<open>tracks\<close> with a cap of one: the line of the later of the
  two events.\<close>

lemma export_ndjson_answer_example:
  "fst (export_ndjson env2 ''tracks'' [] [] [] store2_loaded) = Inr (line_2 @ [newline])"
proof -
  have w: "wf_store store2_loaded" by code_simp
  have a: "export_scope ''tracks'' = ''*'' \<or> isHookAllowed env2 (export_scope ''tracks'')" by code_simp
  have m: "apply_filter env2 (normalizeQ []) [] [] (scope_events env2 store2_loaded (export_scope ''tracks''))
      = Inr [ev ''tracks'' ''1'', ev ''tracks'' ''2'']"
    by code_simp
  have s: "concat (map (\<lambda>e. stringify (event_json e) @ [newline])
        (take (MAX_EXPORT env2) (array_sort byReceivedAt [ev ''tracks'' ''1'', ev ''tracks'' ''2''])))
      = line_2 @ [newline]"
    by code_simp
  from export_ndjson_answer [OF w a m]
  have "fst (export_ndjson env2 ''tracks'' [] [] [] store2_loaded)
           = Inr (concat (map (\<lambda>e. stringify (event_json e) @ [newline])
                    (take (MAX_EXPORT env2) (array_sort byReceivedAt [ev ''tracks'' ''1'', ev ''tracks'' ''2'']))))"
    by (rule conjunct1)
  with s show ?thesis by (simp only:)
qed

text \<open>
  Claim C7. For every scope and filter, the line-delimited export is to write the events
  of the scope that match the filter, one per line. With the store \<open>store_mixed\<close> and the
  selected field \<open>payload.Vehicle.Callsign\<close> with value \<open>51\<close>, one event of the scope
  matches, for the scope of the hook \<open>tracks\<close> and for the scope of all hooks. The export
  does not write the line of that event: the filter throws a \<open>TypeError\<close> on the other
  event, whose payload has no \<open>Vehicle\<close>, and the exception is the answer of the request.
\<close>

theorem ndjson_export_unresolved_path_fails:
  "scope_events env_mixed store_mixed (export_scope ''tracks'') = [ev_vehicle, ev_driver]
   \<and> scope_events env_mixed store_mixed (export_scope []) = [ev_vehicle, ev_driver]
   \<and> eventMatches (inherited env_mixed) ev_vehicle (normalizeQ []) ''payload.Vehicle.Callsign'' ''51''
       = Inr True
   \<and> stringify (event_json ev_vehicle) = line_vehicle
   \<and> fst (export_ndjson env_mixed ''tracks'' [] ''payload.Vehicle.Callsign'' ''51'' store_mixed)
       = Inl TypeError
   \<and> fst (export_ndjson env_mixed [] [] ''payload.Vehicle.Callsign'' ''51'' store_mixed)
       = Inl TypeError"
  by code_simp

text \<open>The answer is not the line of the matching event.\<close>

theorem ndjson_export_unresolved_path_fails_witness:
  "fst (export_ndjson env_mixed ''tracks'' [] ''payload.Vehicle.Callsign'' ''51'' store_mixed)
     \<noteq> Inr (line_vehicle @ [newline])"
  using ndjson_export_unresolved_path_fails by simp

lemma not_allowed_star: "\<not> isHookAllowed env ''*''"
  by (simp add: isHookAllowed_def hook_char_def)

lemma export_states:
  "snd (export_ndjson env hook_param q field value st) = snd (export_events env hook_param q field value st)"
  "snd (export_csv env hook_param q field value st) = snd (export_events env hook_param q field value st)"
  by (cases "export_events env hook_param q field value st"; simp add: export_ndjson_def export_csv_def split: sum.splits)+

lemma export_events_sorts_cache:
  assumes "wf_store st" "hook_param \<noteq> []" "isHookAllowed env (trim hook_param)"
    and "\<not> has_filter (normalizeQ q) value"
  shows "cache_of (snd (export_events env hook_param q field value st)) (trim hook_param)
      = Some (array_sort byReceivedAt (hook_events env st (trim hook_param)))"
    and "\<And>h. h \<noteq> trim hook_param \<Longrightarrow>
           hook_events env (snd (export_events env hook_param q field value st)) h = hook_events env st h"
proof -
  let ?scope = "trim hook_param"
  from assms(2) have sc: "export_scope hook_param = ?scope" by (simp add: export_scope_def)
  from assms(3) not_allowed_star [of env] have ns: "?scope \<noteq> ''*''" by auto
  obtain r st1 where rs: "resolve_scope env ?scope st = (r, st1)" by (cases "resolve_scope env ?scope st")
  note p = resolve_scope_props [OF assms(1) rs]
  have wf1: "wf_store st1" using p(1) by (rule hydrates_wf)
  from p(4) [OF ns assms(3)] obtain e where e: "r = Inr e" "map_of (recentByHook st1) ?scope = Some e"
        "get_array st1 e = scope_events env st ?scope"
    by blast
  obtain r2 st2 where f: "filter_sort_cut env (normalizeQ q) field value e st1 = (r2, st2)"
    by (cases "filter_sort_cut env (normalizeQ q) field value e st1")
  note c = filter_sort_cut_cache [OF wf1 e(2) assms(4) f]
  have st: "snd (export_events env hook_param q field value st) = st2"
    using rs e f sc by (simp add: export_events_def)
  from c(4) e(3) ns show "cache_of (snd (export_events env hook_param q field value st)) ?scope
      = Some (array_sort byReceivedAt (hook_events env st ?scope))"
    by (simp add: st scope_events_def)
  show "hook_events env (snd (export_events env hook_param q field value st)) h = hook_events env st h"
    if "h \<noteq> ?scope" for h
    using c(5) [OF that] hydrates_hook_events [OF p(1)] by (simp add: st)
qed

lemma export_events_keeps_caches:
  assumes "wf_store st" "export_scope hook_param = ''*'' \<or> has_filter (normalizeQ q) value"
  shows "hydrates env st (snd (export_events env hook_param q field value st))"
proof -
  let ?scope = "export_scope hook_param"
  obtain r st1 where rs: "resolve_scope env ?scope st = (r, st1)" by (cases "resolve_scope env ?scope st")
  note p = resolve_scope_props [OF assms(1) rs]
  have wf1: "wf_store st1" using p(1) by (rule hydrates_wf)
  show ?thesis
  proof (cases r)
    case (Inl err)
    with rs p(1) show ?thesis by (simp add: export_events_def)
  next
    case (Inr e)
    have e: "e < length (arrays st1)" "has_filter (normalizeQ q) value \<or> local_ref st1 e"
    proof -
      show "e < length (arrays st1)"
      proof (cases "?scope = ''*''")
        case True
        with p(3) Inr show ?thesis by (auto dest: local_ref_bound)
      next
        case False
        show ?thesis
        proof (cases "isHookAllowed env ?scope")
          case True
          with p(4) False Inr wf_lookup [OF wf1] show ?thesis by auto
        next
          case no: False
          with p(2) False Inr show ?thesis by simp
        qed
      qed
      show "has_filter (normalizeQ q) value \<or> local_ref st1 e"
        using assms(2) p(3) Inr by auto
    qed
    obtain r2 st2 where f: "filter_sort_cut env (normalizeQ q) field value e st1 = (r2, st2)"
      by (cases "filter_sort_cut env (normalizeQ q) field value e st1")
    have st: "snd (export_events env hook_param q field value st) = st2"
      using rs Inr f by (simp add: export_events_def)
    have "hydrates env st1 st2"
    proof (cases "apply_filter env (normalizeQ q) field value (get_array st1 e)")
      case (Inl err)
      from filter_sort_cut_error [OF Inl] f have "st2 = st1" by simp
      with wf1 show ?thesis by (simp add: hydrates_refl)
    next
      case (Inr matching)
      from filter_sort_cut_fresh(2) [OF wf1 e Inr f] show ?thesis .
    qed
    with p(1) st show ?thesis by (auto intro: hydrates_trans)
  qed
qed

text \<open>
  Claim C10. The export of one allowed hook with no filter sorts the array that is the
  cache of the hook: after the export, by either handler, the cache holds its events
  sorted by \<open>receivedAt\<close> descending. The export of all hooks and an export with a filter
  work on arrays of their own: every hook has the events it had.
\<close>

theorem export_sorts_cache_in_place:
  assumes "wf_store st"
  shows "(hook_param \<noteq> [] \<and> isHookAllowed env (trim hook_param) \<and> \<not> has_filter (normalizeQ q) value \<longrightarrow>
            cache_of (snd (export_ndjson env hook_param q field value st)) (trim hook_param)
              = Some (array_sort byReceivedAt (hook_events env st (trim hook_param)))
          \<and> cache_of (snd (export_csv env hook_param q field value st)) (trim hook_param)
              = Some (array_sort byReceivedAt (hook_events env st (trim hook_param))))
       \<and> (export_scope hook_param = ''*'' \<or> has_filter (normalizeQ q) value \<longrightarrow>
            (\<forall>h. hook_events env (snd (export_ndjson env hook_param q field value st)) h = hook_events env st h)
          \<and> (\<forall>h. hook_events env (snd (export_csv env hook_param q field value st)) h = hook_events env st h))"
  using export_events_sorts_cache(1) [OF assms, of hook_param env q "value" field]
    hydrates_hook_events [OF export_events_keeps_caches [OF assms, of hook_param q "value" env field]]
  by (simp add: export_states)

text \<open>The cache that was loaded from the log, older event first: the export of the hook
  turns it around, the export of all hooks leaves it.\<close>

theorem export_sorts_cache_in_place_witness:
  "wf_store store2_loaded
   \<and> cache_of store2_loaded ''tracks'' = Some [ev ''tracks'' ''1'', ev ''tracks'' ''2'']
   \<and> cache_of (snd (export_ndjson env2 ''tracks'' [] [] [] store2_loaded)) ''tracks''
       = Some [ev ''tracks'' ''2'', ev ''tracks'' ''1'']
   \<and> cache_of (snd (export_csv env2 ''tracks'' [] [] [] store2_loaded)) ''tracks''
       = Some [ev ''tracks'' ''2'', ev ''tracks'' ''1'']
   \<and> hook_events env2 (snd (export_ndjson env2 [] [] [] [] store2_loaded)) ''tracks''
       = [ev ''tracks'' ''1'', ev ''tracks'' ''2'']"
proof -
  have w: "wf_store store2_loaded" by code_simp
  have c: "cache_of store2_loaded ''tracks'' = Some [ev ''tracks'' ''1'', ev ''tracks'' ''2'']"
    by code_simp
  have h: "''tracks'' \<noteq> [] \<and> isHookAllowed env2 (trim ''tracks'') \<and> \<not> has_filter (normalizeQ []) []"
    by code_simp
  have s: "array_sort byReceivedAt (hook_events env2 store2_loaded ''tracks'')
      = [ev ''tracks'' ''2'', ev ''tracks'' ''1'']"
    by code_simp
  have t: "trim ''tracks'' = ''tracks''" by code_simp
  have x: "export_scope [] = ''*'' \<or> has_filter (normalizeQ []) []" by code_simp
  have e: "hook_events env2 store2_loaded ''tracks'' = [ev ''tracks'' ''1'', ev ''tracks'' ''2'']"
    by code_simp
  from export_sorts_cache_in_place [OF w, of "''tracks''" env2 "[]" "[]" "[]"] h
  have "cache_of (snd (export_ndjson env2 ''tracks'' [] [] [] store2_loaded)) (trim ''tracks'')
              = Some (array_sort byReceivedAt (hook_events env2 store2_loaded (trim ''tracks'')))"
    and "cache_of (snd (export_csv env2 ''tracks'' [] [] [] store2_loaded)) (trim ''tracks'')
              = Some (array_sort byReceivedAt (hook_events env2 store2_loaded (trim ''tracks'')))"
    by blast+
  then have 1: "cache_of (snd (export_ndjson env2 ''tracks'' [] [] [] store2_loaded)) ''tracks''
       = Some [ev ''tracks'' ''2'', ev ''tracks'' ''1'']"
    and 2: "cache_of (snd (export_csv env2 ''tracks'' [] [] [] store2_loaded)) ''tracks''
       = Some [ev ''tracks'' ''2'', ev ''tracks'' ''1'']"
    unfolding t s by blast+
  from export_sorts_cache_in_place [OF w, of "[]" env2 "[]" "[]" "[]"] x
  have "hook_events env2 (snd (export_ndjson env2 [] [] [] [] store2_loaded)) ''tracks''
      = hook_events env2 store2_loaded ''tracks''"
    by blast
  with e have 3: "hook_events env2 (snd (export_ndjson env2 [] [] [] [] store2_loaded)) ''tracks''
       = [ev ''tracks'' ''1'', ev ''tracks'' ''2'']"
    by (simp only:)
  from w c 1 2 3 show ?thesis by (simp only: simp_thms)
qed

subsection \<open>The invariant of the store\<close>

text \<open>The store of a process that starts has no cache, and every operation of the model
  keeps the references of the caches valid and apart: \<open>wf_store\<close> holds of every store
  that the process reaches.\<close>

lemma wf_store_start: "wf_store \<lparr>arrays = [], recentByHook = [], files = fs\<rparr>"
  by (simp add: wf_store_def)

lemma set_array_wf: "wf_store st \<Longrightarrow> wf_store (set_array a xs st)"
  by (simp add: set_array_def wf_store_def)

lemma storeEvent_wf:
  assumes "wf_store st"
  shows "wf_store (snd (storeEvent env uuid now hook p m st))"
proof -
  obtain a st1 where e: "ensureHookLoaded env hook st = (a, st1)" by (cases "ensureHookLoaded env hook st")
  from ensureHookLoaded_props(1) [OF assms e] have "wf_store st1" by (rule hydrates_wf)
  then have "wf_store (set_array a ys (set_array a xs st1))" for xs ys
    by (intro set_array_wf)
  moreover have "wf_store (s\<lparr>files := f\<rparr>) = wf_store s" for s :: store and f
    by (simp add: wf_store_def)
  ultimately show ?thesis using e \<open>wf_store st1\<close>
    by (simp add: storeEvent_def Let_def set_array_wf)
qed

lemma api_hook_wf:
  assumes "wf_store st"
  shows "wf_store (snd (api_hook env hook_param q field value lp st))"
proof (cases "isHookAllowed env (trim hook_param)")
  case False
  with assms show ?thesis by (simp add: api_hook_def)
next
  case True
  obtain a st1 where e: "ensureHookLoaded env (trim hook_param) st = (a, st1)"
    by (cases "ensureHookLoaded env (trim hook_param) st")
  from ensureHookLoaded_props(1) [OF assms e] have "wf_store st1" by (rule hydrates_wf)
  with True e show ?thesis by (simp add: api_hook_def Let_def split: sum.splits)
qed

lemma api_events_wf:
  assumes "wf_store st"
  shows "wf_store (snd (api_events env q field value lp st))"
  using api_events_char [OF assms, of env q field "value" lp] by (auto dest: hydrates_wf)

lemma export_events_wf:
  assumes "wf_store st"
  shows "wf_store (snd (export_events env hook_param q field value st))"
proof (cases "export_scope hook_param = ''*'' \<or> has_filter (normalizeQ q) value")
  case True
  from export_events_keeps_caches [OF assms True] show ?thesis by (rule hydrates_wf)
next
  case False
  let ?scope = "export_scope hook_param"
  obtain r st1 where rs: "resolve_scope env ?scope st = (r, st1)" by (cases "resolve_scope env ?scope st")
  note p = resolve_scope_props [OF assms rs]
  have wf1: "wf_store st1" using p(1) by (rule hydrates_wf)
  show ?thesis
  proof (cases "isHookAllowed env ?scope")
    case no: False
    with p(2) False have "r = Inl NotFound" by simp
    with rs wf1 show ?thesis by (simp add: export_events_def)
  next
    case True
    with p(4) False obtain e where e: "r = Inr e" "map_of (recentByHook st1) ?scope = Some e" by auto
    obtain r2 st2 where f: "filter_sort_cut env (normalizeQ q) field value e st1 = (r2, st2)"
      by (cases "filter_sort_cut env (normalizeQ q) field value e st1")
    from filter_sort_cut_cache(2) [OF wf1 e(2) _ f] False have "wf_store st2" by simp
    with rs e f show ?thesis by (simp add: export_events_def)
  qed
qed

end
